theory Spec2Isabelle
  imports Main "HOL-Library.Word" "HOL-Library.AList"
begin

unbundle bit_operations_syntax

section \<open>Data model\<close>

text \<open>
  A Go \<^verbatim>\<open>[]byte\<close> buffer is a list of 8-bit words.  Go's \<^verbatim>\<open>int\<close> indices into a buffer
  are natural numbers (they are bounded by the buffer length, so they never overflow);
  the \<^verbatim>\<open>uint32\<close> offsets stored in a token are natural numbers reduced modulo \<open>2 ^ 32\<close>
  at every conversion and at every arithmetic operation of the source.
\<close>

type_synonym byte = "8 word"

definition bytes_of :: "string \<Rightarrow> byte list" where
  "bytes_of s = map of_char s"

abbreviation ch_quote :: byte where "ch_quote \<equiv> 0x22"
abbreviation ch_backslash :: byte where "ch_backslash \<equiv> 0x5C"
abbreviation ch_lbrace :: byte where "ch_lbrace \<equiv> 0x7B"
abbreviation ch_rbrace :: byte where "ch_rbrace \<equiv> 0x7D"
abbreviation ch_lbracket :: byte where "ch_lbracket \<equiv> 0x5B"
abbreviation ch_rbracket :: byte where "ch_rbracket \<equiv> 0x5D"
abbreviation ch_colon :: byte where "ch_colon \<equiv> 0x3A"
abbreviation ch_comma :: byte where "ch_comma \<equiv> 0x2C"
abbreviation ch_minus :: byte where "ch_minus \<equiv> 0x2D"
abbreviation ch_plus :: byte where "ch_plus \<equiv> 0x2B"
abbreviation ch_dot :: byte where "ch_dot \<equiv> 0x2E"
abbreviation ch_zero :: byte where "ch_zero \<equiv> 0x30"
abbreviation ch_nine :: byte where "ch_nine \<equiv> 0x39"

definition uint32 :: "nat \<Rightarrow> nat" where
  "uint32 n = n mod 2 ^ 32"

text \<open>
  The values of Go's \<^verbatim>\<open>error\<close> results, one constructor for each message of the
  source.  \<open>Panic\<close> is not an error value: it stands for a run-time panic of the Go
  program (an index or a slice bound out of range), so that a fault is a result of the
  model like any other.
\<close>

datatype error =
    Panic
  | EmptyInput
  | ExpectedValueAfterColon
  | UnexpectedComma
  | TrailingCommaInObject
  | TrailingCommaInArray
  | InvalidTokenT
  | InvalidTokenF
  | InvalidTokenN
  | MissingDigitsAfterMinus
  | NoDigits
  | LeadingZero
  | NoDigitsAfterDecimal
  | NoDigitsInExponent
  | InvalidNumber
  | UnexpectedCharacter byte
  | UnterminatedString
  | EmptyJSON
  | UnexpectedEndOfJSON
  | UnexpectedToken
  | ExpectedStringKey
  | ExpectedColonAfterKey
  | UnexpectedEndInObject
  | ExpectedCommaOrObjectEnd
  | UnexpectedEndInArray
  | ExpectedCommaOrArrayEnd
  | InvalidEscapeSequence
  | InvalidUnicodeEscape
  | InvalidEscapeCharacter
  | StrconvSyntax
  | StrconvRange

datatype TokenType =
    TokenNone
  | TokenObjectBegin
  | TokenObjectEnd
  | TokenArrayBegin
  | TokenArrayEnd
  | TokenString
  | TokenNumber
  | TokenTrue
  | TokenFalse
  | TokenNull
  | TokenColon
  | TokenComma

record Token =
  Type :: TokenType
  Start :: nat
  End :: nat

section \<open>The tokenizer\<close>

definition isWhitespace :: "byte \<Rightarrow> bool" where
  "isWhitespace c \<longleftrightarrow> c = 0x20 \<or> c = 0x09 \<or> c = 0x0A \<or> c = 0x0D"

text \<open>The test \<^verbatim>\<open>c >= '0' && c <= '9'\<close>, which the source writes out at each use.\<close>

definition isDigit :: "byte \<Rightarrow> bool" where
  "isDigit c \<longleftrightarrow> ch_zero \<le> c \<and> c \<le> ch_nine"

text \<open>The loop \<^verbatim>\<open>for i < len(data) && isWhitespace(data[i]) { i++ }\<close>.\<close>

function skipWhitespace :: "byte list \<Rightarrow> nat \<Rightarrow> nat" where
  "skipWhitespace data i =
     (if i < length data \<and> isWhitespace (data ! i) then skipWhitespace data (i + 1) else i)"
  by pat_completeness auto
termination
  by (relation "measure (\<lambda>(data, i). length data - i)") auto

declare skipWhitespace.simps [simp del]

text \<open>The loop \<^verbatim>\<open>for i < len(data) && data[i] >= '0' && data[i] <= '9' { i++ }\<close>.\<close>

function skipDigits :: "byte list \<Rightarrow> nat \<Rightarrow> nat" where
  "skipDigits data i =
     (if i < length data \<and> isDigit (data ! i) then skipDigits data (i + 1) else i)"
  by pat_completeness auto
termination
  by (relation "measure (\<lambda>(data, i). length data - i)") auto

declare skipDigits.simps [simp del]

text \<open>
  The backward loop \<^verbatim>\<open>for j := i - 1; j >= 0 && data[j] == '\\'; j-- { backslashes++ }\<close>.
  The argument is \<open>j + 1\<close>, so that \<open>0\<close> is the exit at \<open>j = -1\<close>.  The read
  \<^verbatim>\<open>data[j]\<close> has no upper bound check in the source: out of range it panics.
\<close>

fun countBackslashes :: "byte list \<Rightarrow> nat \<Rightarrow> error + nat" where
  "countBackslashes data 0 = Inr 0"
| "countBackslashes data (Suc j) =
     (if j < length data then
        (if data ! j = ch_backslash then
           (case countBackslashes data j of Inl e \<Rightarrow> Inl e | Inr n \<Rightarrow> Inr (n + 1))
         else Inr 0)
      else Inl Panic)"

text \<open>
  The string loop of \<open>SimpleTokenize\<close>, entered after the opening quote was skipped.
  It returns the final \<open>i\<close>: one past the closing quote, or \<open>len(data)\<close> when the loop
  runs off the end of the buffer.
\<close>

function scanString :: "byte list \<Rightarrow> nat \<Rightarrow> error + nat" where
  "scanString data i =
     (if i < length data then
        (if data ! i = ch_quote then
           (case countBackslashes data i of
              Inl e \<Rightarrow> Inl e
            | Inr backslashes \<Rightarrow>
                if backslashes mod 2 = 1 then scanString data (i + 1) else Inr (i + 1))
         else scanString data (i + 1))
      else Inr i)"
  by pat_completeness auto
termination
  by (relation "measure (\<lambda>(data, i). length data - i)") auto

declare scanString.simps [simp del]

text \<open>
  The number branch of \<open>SimpleTokenize\<close>, in the source's four steps (sign, integer
  part, decimal part, exponent) and its closing check.  Each step returns the new \<open>i\<close>.
\<close>

definition numSign :: "byte list \<Rightarrow> byte \<Rightarrow> nat \<Rightarrow> error + nat" where
  "numSign data c i =
     (if c = ch_minus then
        (if i + 1 \<ge> length data \<or> \<not> isDigit (data ! (i + 1))
         then Inl MissingDigitsAfterMinus else Inr (i + 1))
      else Inr i)"

definition numInt :: "byte list \<Rightarrow> nat \<Rightarrow> error + nat" where
  "numInt data i =
     (if i \<ge> length data \<or> \<not> isDigit (data ! i) then Inl NoDigits
      else if data ! i = ch_zero then
        (if i + 1 < length data \<and> isDigit (data ! (i + 1)) then Inl LeadingZero
         else Inr (i + 1))
      else Inr (skipDigits data i))"

definition numFrac :: "byte list \<Rightarrow> nat \<Rightarrow> error + nat" where
  "numFrac data i =
     (if i < length data \<and> data ! i = ch_dot then
        (if i + 1 \<ge> length data \<or> \<not> isDigit (data ! (i + 1)) then Inl NoDigitsAfterDecimal
         else Inr (skipDigits data (i + 1)))
      else Inr i)"

definition numExp :: "byte list \<Rightarrow> nat \<Rightarrow> error + nat" where
  "numExp data i =
     (if i < length data \<and> (data ! i = 0x65 \<or> data ! i = 0x45) then
        (let i = i + 1;
             i = (if i < length data \<and> (data ! i = ch_plus \<or> data ! i = ch_minus)
                  then i + 1 else i)
         in if i \<ge> length data \<or> \<not> isDigit (data ! i) then Inl NoDigitsInExponent
            else Inr (skipDigits data i))
      else Inr i)"

definition numCheck :: "byte list \<Rightarrow> nat \<Rightarrow> nat \<Rightarrow> error + nat" where
  "numCheck data numStart i =
     (if i \<le> numStart then Inl InvalidNumber
      else if numStart = i - 1 then
        (if numStart < length data then
           (if data ! numStart = ch_minus then Inl InvalidNumber else Inr i)
         else Inl Panic)
      else Inr i)"

definition lexNumber :: "byte list \<Rightarrow> byte \<Rightarrow> nat \<Rightarrow> error + nat" where
  "lexNumber data c numStart =
     (case numSign data c numStart of Inl e \<Rightarrow> Inl e | Inr i1 \<Rightarrow>
       (case numInt data i1 of Inl e \<Rightarrow> Inl e | Inr i2 \<Rightarrow>
         (case numFrac data i2 of Inl e \<Rightarrow> Inl e | Inr i3 \<Rightarrow>
           (case numExp data i3 of Inl e \<Rightarrow> Inl e | Inr i4 \<Rightarrow>
              numCheck data numStart i4))))"

text \<open>
  The one-token lookback at the head of the loop body: \<open>Some e\<close> is the early
  \<^verbatim>\<open>return nil, errors.New(...)\<close>.
\<close>

definition lookback :: "Token list \<Rightarrow> byte \<Rightarrow> error option" where
  "lookback tokens c =
     (if length tokens > 0 then
        (let lastToken = last tokens in
         if Type lastToken = TokenColon \<and> (c = ch_rbrace \<or> c = ch_rbracket \<or> c = ch_comma)
           then Some ExpectedValueAfterColon
         else if Type lastToken = TokenComma \<and> c = ch_comma then Some UnexpectedComma
         else if Type lastToken = TokenComma \<and> c = ch_rbrace then Some TrailingCommaInObject
         else if Type lastToken = TokenComma \<and> c = ch_rbracket then Some TrailingCommaInArray
         else None)
      else None)"

text \<open>
  The \<^verbatim>\<open>switch c\<close> of the loop body at position \<open>i\<close>, where \<open>c\<close> is the byte
  \<^verbatim>\<open>data[i]\<close> that the loop has read.  It returns the token's type and the new \<open>i\<close>; in
  every branch of the source \<^verbatim>\<open>token.End\<close> is \<^verbatim>\<open>uint32\<close> of that new \<open>i\<close>.  The
  keyword comparisons \<^verbatim>\<open>string(data[i:i+4]) == "true"\<close> are guarded by
  \<^verbatim>\<open>i+4 <= len(data)\<close>.
\<close>

definition lexToken :: "byte list \<Rightarrow> byte \<Rightarrow> nat \<Rightarrow> error + (TokenType \<times> nat)" where
  "lexToken data c i =
     (if c = ch_lbrace then Inr (TokenObjectBegin, i + 1)
      else if c = ch_rbrace then Inr (TokenObjectEnd, i + 1)
      else if c = ch_lbracket then Inr (TokenArrayBegin, i + 1)
      else if c = ch_rbracket then Inr (TokenArrayEnd, i + 1)
      else if c = ch_colon then Inr (TokenColon, i + 1)
      else if c = ch_comma then Inr (TokenComma, i + 1)
      else if c = ch_quote then
        (case scanString data (i + 1) of Inl e \<Rightarrow> Inl e | Inr j \<Rightarrow> Inr (TokenString, j))
      else if c = 0x74 then
        (if i + 4 \<le> length data \<and> take 4 (drop i data) = [0x74, 0x72, 0x75, 0x65]
         then Inr (TokenTrue, i + 4) else Inl InvalidTokenT)
      else if c = 0x66 then
        (if i + 5 \<le> length data \<and> take 5 (drop i data) = [0x66, 0x61, 0x6C, 0x73, 0x65]
         then Inr (TokenFalse, i + 5) else Inl InvalidTokenF)
      else if c = 0x6E then
        (if i + 4 \<le> length data \<and> take 4 (drop i data) = [0x6E, 0x75, 0x6C, 0x6C]
         then Inr (TokenNull, i + 4) else Inl InvalidTokenN)
      else if c = ch_minus \<or> isDigit c then
        (case lexNumber data c i of Inl e \<Rightarrow> Inl e | Inr j \<Rightarrow> Inr (TokenNumber, j))
      else Inl (UnexpectedCharacter c))"

subsection \<open>Progress of the lexer\<close>

lemma skipWhitespace_ge: "i \<le> skipWhitespace data i"
proof (induction data i rule: skipWhitespace.induct)
  case (1 data i)
  then show ?case by (subst skipWhitespace.simps) auto
qed

lemma skipWhitespace_le: "i \<le> length data \<Longrightarrow> skipWhitespace data i \<le> length data"
proof (induction data i rule: skipWhitespace.induct)
  case (1 data i)
  then show ?case by (subst skipWhitespace.simps) auto
qed


lemma skipDigits_le: "i \<le> length data \<Longrightarrow> skipDigits data i \<le> length data"
proof (induction data i rule: skipDigits.induct)
  case (1 data i)
  then show ?case by (subst skipDigits.simps) auto
qed


lemma countBackslashes_ok: "j \<le> length data \<Longrightarrow> \<exists>n. countBackslashes data j = Inr n"
  by (induction j) auto

lemma scanString_bounds:
  "scanString data i = Inr j \<Longrightarrow> i \<le> j \<and> (i \<le> length data \<longrightarrow> j \<le> length data)"
proof (induction data i arbitrary: j rule: scanString.induct)
  case (1 data i)
  show ?case
  proof (cases "i < length data")
    case False
    with "1.prems" show ?thesis by (subst (asm) scanString.simps) simp
  next
    case True
    note lt = this
    show ?thesis
    proof (cases "data ! i = ch_quote")
      case False
      with lt "1.prems" have "scanString data (i + 1) = Inr j"
        by (subst (asm) scanString.simps) simp
      from "1.IH"(2) [OF lt False this] lt show ?thesis by simp
    next
      case True
      obtain n where n: "countBackslashes data i = Inr n"
        using countBackslashes_ok [of i data] lt by auto
      show ?thesis
      proof (cases "n mod 2 = 1")
        case odd: True
        with lt True n "1.prems" have "scanString data (i + 1) = Inr j"
          by (subst (asm) scanString.simps) simp
        from "1.IH"(1) [OF lt True n odd this] lt show ?thesis by simp
      next
        case False
        with lt True n "1.prems" have "j = i + 1"
          by (subst (asm) scanString.simps) simp
        with lt show ?thesis by simp
      qed
    qed
  qed
qed


lemma lexNumber_bounds:
  assumes "lexNumber data c i = Inr j" and "i < length data"
  shows "i < j \<and> j \<le> length data"
proof -
  from assms(1) obtain i1 i2 i3 i4 where
    s: "numSign data c i = Inr i1" and n: "numInt data i1 = Inr i2" and
    f: "numFrac data i2 = Inr i3" and e: "numExp data i3 = Inr i4" and
    k: "numCheck data i i4 = Inr j"
    by (auto simp: lexNumber_def split: sum.splits)
  from s assms(2) have 1: "i1 \<le> length data"
    by (auto simp: numSign_def split: if_splits)
  from n 1 have 2: "i2 \<le> length data"
    using skipDigits_le [of i1 data] by (auto simp: numInt_def split: if_splits)
  from f 2 have 3: "i3 \<le> length data"
    using skipDigits_le [of "i2 + 1" data] by (auto simp: numFrac_def split: if_splits)
  from e 3 have 4: "i4 \<le> length data"
    using skipDigits_le [of "i3 + 1" data] skipDigits_le [of "i3 + 2" data]
    by (auto simp: numExp_def Let_def split: if_splits)
  from k have "i < j \<and> j = i4"
    by (auto simp: numCheck_def split: if_splits)
  with 4 show ?thesis by simp
qed

lemma lexToken_bounds:
  assumes "lexToken data c i = Inr (ty, j)" and "i < length data"
  shows "i < j \<and> j \<le> length data"
proof -
  consider
      (punct) "c = ch_lbrace \<or> c = ch_rbrace \<or> c = ch_lbracket \<or> c = ch_rbracket
               \<or> c = ch_colon \<or> c = ch_comma"
    | (quote) "c = ch_quote"
    | (kw) "c = 0x74 \<or> c = 0x66 \<or> c = 0x6E"
    | (other) "c \<noteq> ch_lbrace" "c \<noteq> ch_rbrace" "c \<noteq> ch_lbracket" "c \<noteq> ch_rbracket"
        "c \<noteq> ch_colon" "c \<noteq> ch_comma" "c \<noteq> ch_quote" "c \<noteq> 0x74" "c \<noteq> 0x66" "c \<noteq> 0x6E"
    by blast
  then show ?thesis
  proof cases
    case punct
    then show ?thesis using assms by (elim disjE) (simp_all add: lexToken_def)
  next
    case quote
    with assms(1) have "scanString data (i + 1) = Inr j"
      by (simp add: lexToken_def split: sum.splits)
    from scanString_bounds [OF this] assms(2) show ?thesis by auto
  next
    case kw
    then show ?thesis using assms
      by (elim disjE) (simp_all add: lexToken_def split: if_splits)
  next
    case other
    with assms(1) have "lexNumber data c i = Inr j"
      by (simp add: lexToken_def split: sum.splits if_splits)
    from lexNumber_bounds [OF this assms(2)] show ?thesis .
  qed
qed

subsection \<open>The main loop\<close>

text \<open>
  One iteration of \<^verbatim>\<open>for i < len(data)\<close>: skip whitespace, \<^verbatim>\<open>break\<close> at the end of
  the buffer, read \<open>c\<close>, run the lookback checks and the switch, append the token.
\<close>

function tokenizeLoop :: "byte list \<Rightarrow> nat \<Rightarrow> Token list \<Rightarrow> error + Token list" where
  "tokenizeLoop data i tokens =
     (if i < length data then
        (let i1 = skipWhitespace data i in
         if i1 \<ge> length data then Inr tokens
         else
           (let c = data ! i1 in
            case lookback tokens c of
              Some e \<Rightarrow> Inl e
            | None \<Rightarrow>
                (case lexToken data c i1 of
                   Inl e \<Rightarrow> Inl e
                 | Inr (ty, i2) \<Rightarrow>
                     tokenizeLoop data i2
                       (tokens @ [\<lparr>Type = ty, Start = uint32 i1, End = uint32 i2\<rparr>]))))
      else Inr tokens)"
  by pat_completeness auto
termination
proof (relation "measure (\<lambda>(data, i, tokens). length data - i)")
  show "wf (measure (\<lambda>(data, i, tokens). length data - i))" by simp
next
  fix data :: "byte list" and i :: nat and tokens :: "Token list"
    and i1 c x2 ty i2
  assume "i < length data" and i1: "i1 = skipWhitespace data i"
    and "\<not> length data \<le> i1" and c: "c = data ! i1"
    and "lexToken data c i1 = Inr x2" and "(ty, i2) = x2"
  then have "lexToken data c i1 = Inr (ty, i2)" and "i1 < length data" by auto
  from lexToken_bounds [OF this] have "i1 < i2" by simp
  moreover have "i \<le> i1" using i1 skipWhitespace_ge by simp
  ultimately show "((data, i2, tokens @ [\<lparr>Type = ty, Start = uint32 i1, End = uint32 i2\<rparr>]),
                    (data, i, tokens)) \<in> measure (\<lambda>(data, i, tokens). length data - i)"
    using \<open>i < length data\<close> by simp
qed

declare tokenizeLoop.simps [simp del]

definition SimpleTokenize :: "byte list \<Rightarrow> error + Token list" where
  "SimpleTokenize data =
     (if length data = 0 then Inl EmptyInput else tokenizeLoop data 0 [])"

subsection \<open>Structural validation\<close>

text \<open>
  The token walk of \<open>Validate\<close>: \<open>depth\<close> and the explicit \<open>stack\<close>.  The source
  decrements \<open>depth\<close>, then checks the stack top, and tests \<^verbatim>\<open>depth < 0\<close> after the
  switch.
\<close>

fun validateLoop :: "Token list \<Rightarrow> int \<Rightarrow> TokenType list \<Rightarrow> bool" where
  "validateLoop [] depth stack = (depth = 0 \<and> length stack = 0)"
| "validateLoop (token # rest) depth stack =
     (if Type token = TokenObjectBegin then
        (if depth + 1 < 0 then False
         else validateLoop rest (depth + 1) (stack @ [TokenObjectBegin]))
      else if Type token = TokenArrayBegin then
        (if depth + 1 < 0 then False
         else validateLoop rest (depth + 1) (stack @ [TokenArrayBegin]))
      else if Type token = TokenObjectEnd then
        (if length stack = 0 \<or> last stack \<noteq> TokenObjectBegin then False
         else if depth - 1 < 0 then False
         else validateLoop rest (depth - 1) (butlast stack))
      else if Type token = TokenArrayEnd then
        (if length stack = 0 \<or> last stack \<noteq> TokenArrayBegin then False
         else if depth - 1 < 0 then False
         else validateLoop rest (depth - 1) (butlast stack))
      else
        (if depth < 0 then False else validateLoop rest depth stack))"

text \<open>
  \<open>Validate\<close> returns a \<^verbatim>\<open>bool\<close>; the only \<open>Inl\<close> result of the model is a panic
  raised inside \<open>SimpleTokenize\<close>, which the Go function would not catch.
\<close>

definition Validate :: "byte list \<Rightarrow> error + bool" where
  "Validate data =
     (case SimpleTokenize data of
        Inl e \<Rightarrow> (if e = Panic then Inl Panic else Inr False)
      | Inr tokens \<Rightarrow> Inr (validateLoop tokens 0 []))"

section \<open>The primitive layer\<close>

subsection \<open>Leading-integer parse\<close>

text \<open>
  Go's \<^verbatim>\<open>int64\<close> is an integer with the two's-complement wrap-around written out:
  \<open>wrap64\<close> is applied to the result of every \<^verbatim>\<open>int64\<close> operation that could leave the
  range.
\<close>

definition wrap64 :: "int \<Rightarrow> int" where
  "wrap64 x = (x + 2 ^ 63) mod 2 ^ 64 - 2 ^ 63"

abbreviation MaxInt64 :: int where "MaxInt64 \<equiv> 9223372036854775807"

text \<open>
  The digit loop of \<open>parseIntegerScalar\<close>.  \<open>None\<close> is the early
  \<^verbatim>\<open>return 0, false\<close> of the overflow check; \<open>Some (result, parsed)\<close> is the state
  at the \<^verbatim>\<open>break\<close> or at the end of the buffer.
\<close>

function digitLoop :: "byte list \<Rightarrow> nat \<Rightarrow> int \<Rightarrow> bool \<Rightarrow> (int \<times> bool) option" where
  "digitLoop data i result parsed =
     (if i < length data then
        (let c = data ! i in
         if c < ch_zero \<or> c > ch_nine then Some (result, parsed)
         else
           (let digit = uint (c - ch_zero) in
            if result > (MaxInt64 - digit) div 10 then None
            else digitLoop data (i + 1) (wrap64 (wrap64 (result * 10) + digit)) True))
      else Some (result, parsed))"
  by pat_completeness auto
termination
  by (relation "measure (\<lambda>(data, i, result, parsed). length data - i)") auto

declare digitLoop.simps [simp del]

text \<open>The variant of the arm64 build, which tracks \<^verbatim>\<open>parsed\<close>.\<close>

definition parseIntegerScalar :: "byte list \<Rightarrow> int \<times> bool" where
  "parseIntegerScalar data =
     (if length data = 0 then (0, False)
      else
        (let negative = (data ! 0 = ch_minus);
             start = (if negative then 1 else 0)
         in if negative \<and> length data = 1 then (0, False)
            else
              (case digitLoop data start 0 False of
                 None \<Rightarrow> (0, False)
               | Some (result, parsed) \<Rightarrow>
                   ((if negative then wrap64 (- result) else result), parsed))))"

text \<open>
  The variant of the build for other architectures.  Its loop is the same without the
  \<^verbatim>\<open>parsed\<close> flag, and it returns \<^verbatim>\<open>start < len(data)\<close> in its place.
\<close>

definition parseIntegerScalar_generic :: "byte list \<Rightarrow> int \<times> bool" where
  "parseIntegerScalar_generic data =
     (if length data = 0 then (0, False)
      else
        (let negative = (data ! 0 = ch_minus);
             start = (if negative then 1 else 0)
         in if negative \<and> length data = 1 then (0, False)
            else
              (case digitLoop data start 0 False of
                 None \<Rightarrow> (0, False)
               | Some (result, parsed) \<Rightarrow>
                   ((if negative then wrap64 (- result) else result), start < length data))))"




subsection \<open>Quote mask\<close>

text \<open>
  The loop \<^verbatim>\<open>for i, b := range data\<close> of \<open>generateQuoteMaskScalar\<close> with its two flags.
  The write \<^verbatim>\<open>masks[maskIndex] |= 1 << bitIndex\<close> panics when \<open>maskIndex\<close> is out of
  range.
\<close>

function quoteMaskLoop ::
  "byte list \<Rightarrow> nat \<Rightarrow> bool \<Rightarrow> bool \<Rightarrow> 64 word list \<Rightarrow> error + 64 word list" where
  "quoteMaskLoop data i inString escaped masks =
     (if i < length data then
        (let b = data ! i in
         if escaped then quoteMaskLoop data (i + 1) inString False masks
         else if b = ch_backslash \<and> inString then quoteMaskLoop data (i + 1) inString True masks
         else if b = ch_quote then
           (let maskIndex = i div 64; bitIndex = i mod 64 in
            if maskIndex < length masks then
              quoteMaskLoop data (i + 1) (\<not> inString) escaped
                (masks[maskIndex := masks ! maskIndex OR push_bit bitIndex 1])
            else Inl Panic)
         else quoteMaskLoop data (i + 1) inString escaped masks)
      else Inr masks)"
  by pat_completeness auto
termination
  by (relation "measure (\<lambda>(data, i, inString, escaped, masks). length data - i)") auto

declare quoteMaskLoop.simps [simp del]

definition generateQuoteMaskScalar :: "byte list \<Rightarrow> error + 64 word list" where
  "generateQuoteMaskScalar data =
     (let maskCount = (length data + 63) div 64;
          masks = replicate maskCount 0
      in quoteMaskLoop data 0 False False masks)"

subsection \<open>UTF-8 validation\<close>

text \<open>A \<^verbatim>\<open>rune\<close> is an integer; the function returns the rune and its size.\<close>

abbreviation RuneError :: int where "RuneError \<equiv> 0xFFFD"

definition decodeRuneInString :: "byte list \<Rightarrow> int \<times> nat" where
  "decodeRuneInString s =
     (if length s = 0 then (RuneError, 0)
      else
        (let c0 = s ! 0 in
         if c0 < 0x80 then (uint c0, 1)
         else if c0 < 0xC0 then (RuneError, 1)
         else if c0 < 0xE0 then
           (if length s < 2 then (RuneError, 1)
            else
              (let c1 = s ! 1 in
               if c1 < 0x80 \<or> c1 \<ge> 0xC0 then (RuneError, 1)
               else
                 (let r = push_bit 6 (uint (c0 AND 0x1F)) OR uint (c1 AND 0x3F) in
                  if r < 0x80 then (RuneError, 1) else (r, 2))))
         else (RuneError, 1)))"

lemma decodeRuneInString_size:
  "s \<noteq> [] \<Longrightarrow> snd (decodeRuneInString s) = 1 \<or> snd (decodeRuneInString s) = 2"
  by (simp add: decodeRuneInString_def Let_def)

text \<open>The loop \<^verbatim>\<open>for i := 0; i < len(data); { ...; i += size }\<close>.\<close>

function validateUTF8Loop :: "byte list \<Rightarrow> nat \<Rightarrow> bool" where
  "validateUTF8Loop data i =
     (if i < length data then
        (case decodeRuneInString (drop i data) of
           (r, sz) \<Rightarrow>
             if r = RuneError \<and> sz = 1 then False
             else validateUTF8Loop data (i + sz))
      else True)"
  by pat_completeness auto
termination
proof (relation "measure (\<lambda>(data, i). length data - i)", goal_cases)
  case 1
  show ?case by simp
next
  case (2 data i r sz)
  from 2(1) have "drop i data \<noteq> []" by simp
  from decodeRuneInString_size [OF this] 2(2) have "sz = 1 \<or> sz = 2"
    by (metis snd_conv)
  with 2(1) show ?case by auto
qed

declare validateUTF8Loop.simps [simp del]

definition validateUTF8Scalar :: "byte list \<Rightarrow> bool" where
  "validateUTF8Scalar data = validateUTF8Loop data 0"

text \<open>\<open>SIMDValidateUTF8\<close> of the arm64 build; the generic build calls the scalar routine.\<close>

definition SIMDValidateUTF8 :: "byte list \<Rightarrow> bool" where
  "SIMDValidateUTF8 data = (if length data = 0 then True else validateUTF8Scalar data)"

subsection \<open>Structural scan\<close>

abbreviation StructuralQuote :: "64 word" where "StructuralQuote \<equiv> 1"
abbreviation StructuralBackslash :: "64 word" where "StructuralBackslash \<equiv> 2"
abbreviation StructuralColon :: "64 word" where "StructuralColon \<equiv> 4"
abbreviation StructuralComma :: "64 word" where "StructuralComma \<equiv> 8"
abbreviation StructuralLBrace :: "64 word" where "StructuralLBrace \<equiv> 16"
abbreviation StructuralRBrace :: "64 word" where "StructuralRBrace \<equiv> 32"
abbreviation StructuralLBracket :: "64 word" where "StructuralLBracket \<equiv> 64"
abbreviation StructuralRBracket :: "64 word" where "StructuralRBracket \<equiv> 128"
abbreviation StructuralWhitespace :: "64 word" where "StructuralWhitespace \<equiv> 256"

text \<open>The table that \<open>initCharClassifier\<close> fills; every other entry is zero.\<close>

definition charClassifier :: "byte \<Rightarrow> 64 word" where
  "charClassifier c =
     (if c = ch_quote then StructuralQuote
      else if c = ch_backslash then StructuralBackslash
      else if c = ch_colon then StructuralColon
      else if c = ch_comma then StructuralComma
      else if c = ch_lbrace then StructuralLBrace
      else if c = ch_rbrace then StructuralRBrace
      else if c = ch_lbracket then StructuralLBracket
      else if c = ch_rbracket then StructuralRBracket
      else if c = 0x20 \<or> c = 0x09 \<or> c = 0x0A \<or> c = 0x0D then StructuralWhitespace
      else 0)"

text \<open>
  The loop of \<open>scanScalar\<close>; \<open>indices\<close> are the offsets appended so far.  In the test
  of line 119 of the source \<^verbatim>\<open>&&\<close> binds tighter than \<^verbatim>\<open>||\<close>.
\<close>

function scanScalarLoop :: "byte list \<Rightarrow> nat \<Rightarrow> bool \<Rightarrow> bool \<Rightarrow> nat list \<Rightarrow> nat list" where
  "scanScalarLoop buf i inString escaped indices =
     (if i < length buf then
        (let c = buf ! i in
         if escaped then scanScalarLoop buf (i + 1) inString False indices
         else if c = ch_backslash \<and> inString then scanScalarLoop buf (i + 1) inString True indices
         else if c = ch_quote then
           scanScalarLoop buf (i + 1) (\<not> inString) escaped (indices @ [uint32 i])
         else if \<not> inString then
           (let class = charClassifier c in
            if class \<noteq> 0 \<and> class \<noteq> StructuralWhitespace then
              scanScalarLoop buf (i + 1) inString escaped (indices @ [uint32 i])
            else if (class = 0 \<and> (c \<ge> ch_zero \<and> c \<le> ch_nine)) \<or> c = ch_minus \<or> c = 0x74
                    \<or> c = 0x66 \<or> c = 0x6E then
              (if i = 0 \<or> charClassifier (buf ! (i - 1)) \<noteq> 0 \<or> buf ! (i - 1) = 0x20
                  \<or> buf ! (i - 1) = 0x09 \<or> buf ! (i - 1) = 0x0A \<or> buf ! (i - 1) = 0x0D
               then scanScalarLoop buf (i + 1) inString escaped (indices @ [uint32 i])
               else scanScalarLoop buf (i + 1) inString escaped indices)
            else scanScalarLoop buf (i + 1) inString escaped indices)
         else scanScalarLoop buf (i + 1) inString escaped indices)
      else indices)"
  by pat_completeness auto
termination
  by (relation "measure (\<lambda>(buf, i, inString, escaped, indices). length buf - i)") auto

declare scanScalarLoop.simps [simp del]

text \<open>
  \<open>scanScalar\<close> appends to \<^verbatim>\<open>s.structuralIndices\<close>; the model returns the offsets it
  appends.
\<close>

definition scanScalar :: "byte list \<Rightarrow> nat list" where
  "scanScalar buf = scanScalarLoop buf 0 False False []"

text \<open>
  A Go slice of \<^verbatim>\<open>uint32\<close>: the array from the slice's first element to its capacity,
  and the slice's length.
\<close>

record u32slice =
  backing :: "nat list"
  slen :: nat

definition cap :: "u32slice \<Rightarrow> nat" where
  "cap s = length (backing s)"

definition contents :: "u32slice \<Rightarrow> nat list" where
  "contents s = take (slen s) (backing s)"

definition make :: "nat \<Rightarrow> nat \<Rightarrow> u32slice" where
  "make n c = \<lparr>backing = replicate c 0, slen = n\<rparr>"

definition appendAll :: "u32slice \<Rightarrow> nat list \<Rightarrow> u32slice" where
  "appendAll s xs =
     \<lparr>backing = contents s @ xs @ drop (slen s + length xs) (backing s),
      slen = slen s + length xs\<rparr>"

text \<open>
  The assembly routines \<open>findStructuralIndicesAVX2\<close> and \<open>findStructuralIndicesSSE42\<close>.
  Each runs a vector loop over the whole chunks of the buffer (32 and 16 bytes) and then a
  byte-by-byte remainder loop over the tail, which compares the byte with each of
  \<^verbatim>\<open>" \ { } [ ] : ,\<close> and stores the 32-bit offset on a match; the remainder loop is the
  same in the two routines.  The vector loop is not modelled: it is the parameter
  \<open>chunkLoop\<close>, a function of the bytes of the whole chunks, and it does not run on a
  buffer shorter than one chunk.
\<close>

definition remainderLoop :: "byte list \<Rightarrow> nat \<Rightarrow> nat list" where
  "remainderLoop buf start =
     [uint32 i. i \<leftarrow> [start ..< length buf],
        buf ! i = ch_quote \<or> buf ! i = ch_backslash \<or> buf ! i = ch_lbrace \<or> buf ! i = ch_rbrace
        \<or> buf ! i = ch_lbracket \<or> buf ! i = ch_rbracket \<or> buf ! i = ch_colon \<or> buf ! i = ch_comma]"

definition findStructuralIndices :: "nat \<Rightarrow> (byte list \<Rightarrow> nat list) \<Rightarrow> byte list \<Rightarrow> nat list" where
  "findStructuralIndices width chunkLoop buf =
     (let n = (length buf div width) * width in
      (if n = 0 then [] else chunkLoop (take n buf)) @ remainderLoop buf n)"

definition findStructuralIndicesAVX2 :: "(byte list \<Rightarrow> nat list) \<Rightarrow> byte list \<Rightarrow> nat list" where
  "findStructuralIndicesAVX2 chunkLoop buf = findStructuralIndices 32 chunkLoop buf"

definition findStructuralIndicesSSE42 :: "(byte list \<Rightarrow> nat list) \<Rightarrow> byte list \<Rightarrow> nat list" where
  "findStructuralIndicesSSE42 chunkLoop buf = findStructuralIndices 16 chunkLoop buf"

text \<open>
  \<open>scanSIMD\<close> of the amd64 build; \<open>avx2Loop\<close> and \<open>sse42Loop\<close> are the vector loops of
  the two assembly routines.  The expression \<^verbatim>\<open>&s.structuralIndices[0]\<close> is an index
  expression: it panics when the slice has length zero.  The reslice
  \<^verbatim>\<open>s.structuralIndices[:count]\<close> panics when \<open>count\<close> exceeds the capacity.
\<close>

definition scanSIMD_amd64 ::
  "bool \<Rightarrow> bool \<Rightarrow> (byte list \<Rightarrow> nat list) \<Rightarrow> (byte list \<Rightarrow> nat list) \<Rightarrow> byte list \<Rightarrow> u32slice
     \<Rightarrow> error + u32slice" where
  "scanSIMD_amd64 hasAVX2 hasSSE42 avx2Loop sse42Loop buf structuralIndices =
     (if length buf = 0 then Inr structuralIndices
      else
        (let estimatedIndices = length buf div 8;
             s1 = (if cap structuralIndices < estimatedIndices then make 0 estimatedIndices
                   else structuralIndices)
         in if slen s1 = 0 then Inl Panic
            else
              (let s2 = s1\<lparr>slen := cap s1\<rparr> in
               if hasAVX2 \<or> hasSSE42 then
                 (let found = (if hasAVX2 then findStructuralIndicesAVX2 avx2Loop buf
                               else findStructuralIndicesSSE42 sse42Loop buf);
                      count = length found
                  in if count > cap s2 then Inl Panic
                     else Inr \<lparr>backing = found @ drop count (backing s2), slen = count\<rparr>)
               else Inr (appendAll s2 (scanScalar buf)))))"

text \<open>
  \<open>Scan\<close> of the amd64 build: it truncates \<^verbatim>\<open>s.structuralIndices\<close> to length zero and
  dispatches on \<open>hasSIMD()\<close>, which is \<^verbatim>\<open>hasAVX2() || hasSSE42()\<close>.
\<close>

definition Scan_amd64 ::
  "bool \<Rightarrow> bool \<Rightarrow> (byte list \<Rightarrow> nat list) \<Rightarrow> (byte list \<Rightarrow> nat list) \<Rightarrow> u32slice \<Rightarrow> byte list
     \<Rightarrow> error + u32slice" where
  "Scan_amd64 hasAVX2 hasSSE42 avx2Loop sse42Loop structuralIndices data =
     (let s0 = structuralIndices\<lparr>slen := 0\<rparr> in
      if hasAVX2 \<or> hasSSE42 then scanSIMD_amd64 hasAVX2 hasSSE42 avx2Loop sse42Loop data s0
      else Inr (appendAll s0 (scanScalar data)))"

text \<open>
  \<open>scanSIMD\<close> of the arm64 build with the Go stub \<open>findStructuralIndicesNEON\<close>, which
  returns \<open>0\<close>, and \<open>scanSIMD\<close> of the other architectures.
\<close>

definition findStructuralIndicesNEON :: "byte list \<Rightarrow> nat" where
  "findStructuralIndicesNEON aligned = 0"

definition scanSIMD_arm64 :: "byte list \<Rightarrow> nat list" where
  "scanSIMD_arm64 buf =
     (if length buf = 0 then []
      else if length buf \<ge> 16 then
        (let count = findStructuralIndicesNEON buf in
         if count > 0 then take count (replicate (length buf div 4) 0) else scanScalar buf)
      else scanScalar buf)"

definition scanSIMD_generic :: "byte list \<Rightarrow> nat list" where
  "scanSIMD_generic buf = scanScalar buf"

section \<open>The value parser\<close>

datatype 'f jvalue =
    JNull
  | JBool bool
  | JInteger int
  | JFloat 'f
  | JString "byte list"
  | JArray "'f jvalue list"
  | JObject "(byte list \<times> 'f jvalue) list"

definition decVal :: "byte list \<Rightarrow> nat" where
  "decVal s = foldl (\<lambda>acc c. acc * 10 + unat (c - ch_zero)) 0 s"

definition ParseInt :: "byte list \<Rightarrow> error + int" where
  "ParseInt s =
     (if s = [] then Inl StrconvSyntax
      else
        (let neg = (hd s = ch_minus);
             body = (if hd s = ch_plus \<or> hd s = ch_minus then tl s else s)
         in if body = [] \<or> \<not> list_all isDigit body then Inl StrconvSyntax
            else
              (let un = decVal body in
               if (\<not> neg \<and> un \<ge> 2 ^ 63) \<or> (neg \<and> un > 2 ^ 63) then Inl StrconvRange
               else Inr (if neg then - int un else int un))))"

definition hexDigit :: "byte \<Rightarrow> nat option" where
  "hexDigit c =
     (if ch_zero \<le> c \<and> c \<le> ch_nine then Some (unat (c - ch_zero))
      else if 0x61 \<le> c \<and> c \<le> 0x66 then Some (unat (c - 0x61) + 10)
      else if 0x41 \<le> c \<and> c \<le> 0x46 then Some (unat (c - 0x41) + 10)
      else None)"

definition ParseUint16 :: "byte list \<Rightarrow> error + nat" where
  "ParseUint16 s =
     (if s = [] \<or> (\<exists>c \<in> set s. hexDigit c = None) then Inl StrconvSyntax
      else
        (let v = foldl (\<lambda>acc c. acc * 16 + (case hexDigit c of Some d \<Rightarrow> d | None \<Rightarrow> 0)) 0 s
         in if v \<ge> 2 ^ 16 then Inl StrconvRange else Inr v))"

definition encodeRune :: "nat \<Rightarrow> byte list" where
  "encodeRune r =
     (if r < 0x80 then [of_nat r]
      else if r < 0x800 then [0xC0 OR of_nat (r div 64), 0x80 OR of_nat (r mod 64)]
      else if (0xD800 \<le> r \<and> r \<le> 0xDFFF) \<or> r > 0x10FFFF then [0xEF, 0xBF, 0xBD]
      else if r < 0x10000 then
        [0xE0 OR of_nat (r div 4096), 0x80 OR of_nat (r div 64 mod 64), 0x80 OR of_nat (r mod 64)]
      else
        [0xF0 OR of_nat (r div 262144), 0x80 OR of_nat (r div 4096 mod 64),
         0x80 OR of_nat (r div 64 mod 64), 0x80 OR of_nat (r mod 64)])"

definition containsEscape :: "byte list \<Rightarrow> bool" where
  "containsEscape b \<longleftrightarrow> (\<exists>c \<in> set b. c = ch_backslash)"

text \<open>
  \<open>sub32\<close> is subtraction of \<^verbatim>\<open>uint32\<close> values.  \<open>slice data lo hi\<close> is the slice
  expression \<^verbatim>\<open>data[lo:hi]\<close>, which panics unless \<open>lo \<le> hi \<le> cap(data)\<close>; the capacity
  of a buffer is taken to be its length, the least it can be.
\<close>

definition sub32 :: "nat \<Rightarrow> nat \<Rightarrow> nat" where
  "sub32 a b = (a + 2 ^ 32 - b mod 2 ^ 32) mod 2 ^ 32"

definition slice :: "byte list \<Rightarrow> nat \<Rightarrow> nat \<Rightarrow> error + byte list" where
  "slice data lo hi =
     (if lo \<le> hi \<and> hi \<le> length data then Inr (take (hi - lo) (drop lo data)) else Inl Panic)"

text \<open>
  The loop of \<open>unescapeString\<close> with its counter \<open>i\<close> at the head of an iteration; the
  source increments \<open>i\<close> once after reading the backslash, by four more after a
  \<^verbatim>\<open>\u\<close> escape, and once at the end of the iteration.
\<close>

function unescapeLoop :: "byte list \<Rightarrow> nat \<Rightarrow> byte list \<Rightarrow> error + byte list" where
  "unescapeLoop b i buf =
     (if i < length b then
        (if b ! i \<noteq> ch_backslash then unescapeLoop b (i + 1) (buf @ [b ! i])
         else if i + 1 \<ge> length b then Inl InvalidEscapeSequence
         else
           (let c = b ! (i + 1) in
            if c = ch_quote \<or> c = ch_backslash \<or> c = 0x2F then unescapeLoop b (i + 2) (buf @ [c])
            else if c = 0x62 then unescapeLoop b (i + 2) (buf @ [0x08])
            else if c = 0x66 then unescapeLoop b (i + 2) (buf @ [0x0C])
            else if c = 0x6E then unescapeLoop b (i + 2) (buf @ [0x0A])
            else if c = 0x72 then unescapeLoop b (i + 2) (buf @ [0x0D])
            else if c = 0x74 then unescapeLoop b (i + 2) (buf @ [0x09])
            else if c = 0x75 then
              (if i + 1 + 4 \<ge> length b then Inl InvalidUnicodeEscape
               else
                 (case slice b (i + 2) (i + 6) of
                    Inl e \<Rightarrow> Inl e
                  | Inr hex \<Rightarrow>
                      (case ParseUint16 hex of
                         Inl e \<Rightarrow> Inl e
                       | Inr r \<Rightarrow> unescapeLoop b (i + 6) (buf @ encodeRune r))))
            else Inl InvalidEscapeCharacter))
      else Inr buf)"
  by pat_completeness auto
termination
  by (relation "measure (\<lambda>(b, i, buf). length b - i)") auto

declare unescapeLoop.simps [simp del]

definition unescapeString :: "byte list \<Rightarrow> error + byte list" where
  "unescapeString b = unescapeLoop b 0 []"

definition parseString ::
  "Token list \<Rightarrow> byte list \<Rightarrow> nat \<Rightarrow> error + ('f jvalue \<times> nat)" where
  "parseString tokens data pos =
     (if pos < length tokens then
        (let token = tokens ! pos in
         if uint32 (Start token + 1) \<ge> sub32 (End token) 1 then Inr (JString [], pos + 1)
         else
           (case slice data (uint32 (Start token + 1)) (sub32 (End token) 1) of
              Inl e \<Rightarrow> Inl e
            | Inr str \<Rightarrow>
                if \<not> containsEscape str then Inr (JString str, pos + 1)
                else
                  (case unescapeString str of
                     Inl e \<Rightarrow> Inl e
                   | Inr s \<Rightarrow> Inr (JString s, pos + 1))))
      else Inl Panic)"

definition containsFloatCharsBytes :: "byte list \<Rightarrow> bool" where
  "containsFloatCharsBytes b \<longleftrightarrow> (\<exists>c \<in> set b. c = ch_dot \<or> c = 0x65 \<or> c = 0x45)"

text \<open>
  \<open>parseNumber\<close> in two parts: \<open>numberValue\<close> is what the function does with the bytes
  \<open>numBytes\<close> of the lexeme; \<open>parseNumber\<close> reads the token, advances the position and
  takes the slice \<^verbatim>\<open>p.data[token.Start:token.End]\<close>.  \<open>SIMDParseInteger\<close> differs between
  the builds and is a parameter of the parser.  So is \<^verbatim>\<open>strconv.ParseFloat\<close>, of Go's
  standard library: a \<^verbatim>\<open>float64\<close> and its rounding are outside this model, and a float
  result is a value of the type parameter \<open>'f\<close>.
\<close>

definition numberValue ::
  "(byte list \<Rightarrow> int \<times> bool) \<Rightarrow> (byte list \<Rightarrow> error + 'f) \<Rightarrow> byte list \<Rightarrow> error + 'f jvalue" where
  "numberValue SIMDParseInteger ParseFloat numBytes =
     (let viaFloat =
        (case ParseFloat numBytes of
           Inl e \<Rightarrow> Inl e
         | Inr val \<Rightarrow> Inr (JFloat val))
      in if \<not> containsFloatCharsBytes numBytes then
           (case SIMDParseInteger numBytes of
              (val, True) \<Rightarrow> Inr (JInteger val)
            | (val, False) \<Rightarrow>
                (case ParseInt numBytes of
                   Inr val \<Rightarrow> Inr (JInteger val)
                 | Inl e \<Rightarrow> viaFloat))
         else viaFloat)"

definition parseNumber ::
  "(byte list \<Rightarrow> int \<times> bool) \<Rightarrow> (byte list \<Rightarrow> error + 'f) \<Rightarrow> Token list \<Rightarrow> byte list \<Rightarrow> nat \<Rightarrow> error + ('f jvalue \<times> nat)" where
  "parseNumber SIMDParseInteger ParseFloat tokens data pos =
     (if pos < length tokens then
        (let token = tokens ! pos in
         case slice data (Start token) (End token) of
           Inl e \<Rightarrow> Inl e
         | Inr numBytes \<Rightarrow>
             (case numberValue SIMDParseInteger ParseFloat numBytes of
                Inl e \<Rightarrow> Inl e
              | Inr val \<Rightarrow> Inr (val, pos + 1)))
      else Inl Panic)"

function parseValue ::
    "(byte list \<Rightarrow> int \<times> bool) \<Rightarrow> (byte list \<Rightarrow> error + 'f) \<Rightarrow> Token list \<Rightarrow> byte list \<Rightarrow> nat \<Rightarrow> error + ('f jvalue \<times> nat)"
  and parseObject ::
    "(byte list \<Rightarrow> int \<times> bool) \<Rightarrow> (byte list \<Rightarrow> error + 'f) \<Rightarrow> Token list \<Rightarrow> byte list \<Rightarrow> nat \<Rightarrow> error + ('f jvalue \<times> nat)"
  and objectLoop ::
    "(byte list \<Rightarrow> int \<times> bool) \<Rightarrow> (byte list \<Rightarrow> error + 'f) \<Rightarrow> Token list \<Rightarrow> byte list \<Rightarrow> nat
      \<Rightarrow> (byte list \<times> 'f jvalue) list \<Rightarrow> error + ('f jvalue \<times> nat)"
  and parseArray ::
    "(byte list \<Rightarrow> int \<times> bool) \<Rightarrow> (byte list \<Rightarrow> error + 'f) \<Rightarrow> Token list \<Rightarrow> byte list \<Rightarrow> nat \<Rightarrow> error + ('f jvalue \<times> nat)"
  and arrayLoop ::
    "(byte list \<Rightarrow> int \<times> bool) \<Rightarrow> (byte list \<Rightarrow> error + 'f) \<Rightarrow> Token list \<Rightarrow> byte list \<Rightarrow> nat
      \<Rightarrow> 'f jvalue list \<Rightarrow> error + ('f jvalue \<times> nat)"
where
  "parseValue prim pf tokens data pos =
     (if pos \<ge> length tokens then Inl UnexpectedEndOfJSON
      else
        (case Type (tokens ! pos) of
           TokenObjectBegin \<Rightarrow> parseObject prim pf tokens data pos
         | TokenArrayBegin \<Rightarrow> parseArray prim pf tokens data pos
         | TokenString \<Rightarrow> parseString tokens data pos
         | TokenNumber \<Rightarrow> parseNumber prim pf tokens data pos
         | TokenTrue \<Rightarrow> Inr (JBool True, pos + 1)
         | TokenFalse \<Rightarrow> Inr (JBool False, pos + 1)
         | TokenNull \<Rightarrow> Inr (JNull, pos + 1)
         | _ \<Rightarrow> Inl UnexpectedToken))"
| "parseObject prim pf tokens data pos =
     (if pos + 1 < length tokens \<and> Type (tokens ! (pos + 1)) = TokenObjectEnd
      then Inr (JObject [], pos + 2)
      else objectLoop prim pf tokens data (pos + 1) [])"
| "objectLoop prim pf tokens data pos obj =
     (if pos \<ge> length tokens \<or> Type (tokens ! pos) \<noteq> TokenString then Inl ExpectedStringKey
      else
        (case (parseString tokens data pos :: error + ('f jvalue \<times> nat)) of
           Inl e \<Rightarrow> Inl e
         | Inr (key, pos1) \<Rightarrow>
             if pos1 \<ge> length tokens \<or> Type (tokens ! pos1) \<noteq> TokenColon
             then Inl ExpectedColonAfterKey
             else
               (case parseValue prim pf tokens data (pos1 + 1) of
                  Inl e \<Rightarrow> Inl e
                | Inr (v, pos2) \<Rightarrow>
                    (case key of
                       JString k \<Rightarrow>
                         (let obj' = AList.update k v obj in
                          if pos2 \<ge> length tokens then Inl UnexpectedEndInObject
                          else if Type (tokens ! pos2) = TokenObjectEnd
                            then Inr (JObject obj', pos2 + 1)
                          else if Type (tokens ! pos2) = TokenComma
                            then objectLoop prim pf tokens data (pos2 + 1) obj'
                          else Inl ExpectedCommaOrObjectEnd)
                     | _ \<Rightarrow> Inl Panic))))"
| "parseArray prim pf tokens data pos =
     (if pos + 1 < length tokens \<and> Type (tokens ! (pos + 1)) = TokenArrayEnd
      then Inr (JArray [], pos + 2)
      else arrayLoop prim pf tokens data (pos + 1) [])"
| "arrayLoop prim pf tokens data pos arr =
     (case parseValue prim pf tokens data pos of
        Inl e \<Rightarrow> Inl e
      | Inr (v, pos1) \<Rightarrow>
          (let arr' = arr @ [v] in
           if pos1 \<ge> length tokens then Inl UnexpectedEndInArray
           else if Type (tokens ! pos1) = TokenArrayEnd then Inr (JArray arr', pos1 + 1)
           else if Type (tokens ! pos1) = TokenComma then arrayLoop prim pf tokens data (pos1 + 1) arr'
           else Inl ExpectedCommaOrArrayEnd))"
  by pat_completeness auto


text \<open>
  Termination of the parser: every successful call returns a position beyond the one it
  started from, first as a partial-correctness property on the domain of the functions.
\<close>

lemma parseString_pos: "parseString tokens data pos = Inr (v, p) \<Longrightarrow> p = pos + 1"
  by (auto simp: parseString_def Let_def split: if_splits sum.splits)

lemma parseNumber_pos: "parseNumber prim pf tokens data pos = Inr (v, p) \<Longrightarrow> p = pos + 1"
  by (auto simp: parseNumber_def Let_def split: if_splits sum.splits)

lemma parse_pos_dom:
  fixes pf :: "byte list \<Rightarrow> error + 'f"
  shows "parseValue_parseObject_objectLoop_parseArray_arrayLoop_dom (Inl (Inl (prim, pf, tokens, data, pos)))
           \<Longrightarrow> parseValue prim pf tokens data pos = Inr (v, p) \<Longrightarrow> pos < p"
    and "parseValue_parseObject_objectLoop_parseArray_arrayLoop_dom (Inl (Inr (prim, pf, tokens, data, pos)))
           \<Longrightarrow> parseObject prim pf tokens data pos = Inr (v, p) \<Longrightarrow> pos < p"
    and "parseValue_parseObject_objectLoop_parseArray_arrayLoop_dom (Inr (Inl (prim, pf, tokens, data, pos, obj)))
           \<Longrightarrow> objectLoop prim pf tokens data pos obj = Inr (v, p) \<Longrightarrow> pos < p"
    and "parseValue_parseObject_objectLoop_parseArray_arrayLoop_dom (Inr (Inr (Inl (prim, pf, tokens, data, pos))))
           \<Longrightarrow> parseArray prim pf tokens data pos = Inr (v, p) \<Longrightarrow> pos < p"
    and "parseValue_parseObject_objectLoop_parseArray_arrayLoop_dom (Inr (Inr (Inr (prim, pf, tokens, data, pos, arr))))
           \<Longrightarrow> arrayLoop prim pf tokens data pos arr = Inr (v, p) \<Longrightarrow> pos < p"
proof (induct arbitrary: v p and v p and v p and v p and v p
    rule: parseValue_parseObject_objectLoop_parseArray_arrayLoop.pinduct)
  case (1 prim pf tokens data pos)
  from "1.prems" have lt: "\<not> length tokens \<le> pos"
    by (subst (asm) parseValue.psimps [OF "1.hyps"(1)]) (simp split: if_splits)
  show ?case
  proof (cases "Type (tokens ! pos)")
    case TokenObjectBegin
    with "1.prems" lt have "parseObject prim pf tokens data pos = Inr (v, p)"
      by (subst (asm) parseValue.psimps [OF "1.hyps"(1)]) simp
    from "1.hyps"(2) [OF lt TokenObjectBegin this] show ?thesis .
  next
    case TokenArrayBegin
    with "1.prems" lt have "parseArray prim pf tokens data pos = Inr (v, p)"
      by (subst (asm) parseValue.psimps [OF "1.hyps"(1)]) simp
    from "1.hyps"(3) [OF lt TokenArrayBegin this] show ?thesis .
  next
    case TokenString
    with "1.prems" lt have "parseString tokens data pos = Inr (v, p)"
      by (subst (asm) parseValue.psimps [OF "1.hyps"(1)]) simp
    from parseString_pos [OF this] show ?thesis by simp
  next
    case TokenNumber
    with "1.prems" lt have "parseNumber prim pf tokens data pos = Inr (v, p)"
      by (subst (asm) parseValue.psimps [OF "1.hyps"(1)]) simp
    from parseNumber_pos [OF this] show ?thesis by simp
  qed (use "1.prems" lt in \<open>subst (asm) parseValue.psimps [OF "1.hyps"(1)], simp\<close>)+
next
  case (2 prim pf tokens data pos)
  show ?case
  proof (cases "pos + 1 < length tokens \<and> Type (tokens ! (pos + 1)) = TokenObjectEnd")
    case True
    with "2.prems" show ?thesis
      by (subst (asm) parseObject.psimps [OF "2.hyps"(1)]) auto
  next
    case False
    with "2.prems" have "objectLoop prim pf tokens data (pos + 1) [] = Inr (v, p)"
      by (subst (asm) parseObject.psimps [OF "2.hyps"(1)]) auto
    from "2.hyps"(2) [OF False this] show ?thesis by simp
  qed
next
  case (3 prim pf tokens data pos obj)
  note eq = "3.prems" [unfolded objectLoop.psimps [OF "3.hyps"(1)]]
  from eq have g1: "\<not> (length tokens \<le> pos \<or> Type (tokens ! pos) \<noteq> TokenString)"
    by (auto split: if_splits)
  from eq g1 obtain key :: "'f jvalue" and pos1
    where ps: "parseString tokens data pos = Inr (key, pos1)"
    by (auto split: sum.splits)
  from parseString_pos [OF ps] have pos1: "pos1 = pos + 1" .
  from eq g1 ps have g2: "\<not> (length tokens \<le> pos1 \<or> Type (tokens ! pos1) \<noteq> TokenColon)"
    by (auto split: if_splits)
  from eq g1 ps g2 obtain v' pos2 where pv: "parseValue prim pf tokens data (pos1 + 1) = Inr (v', pos2)"
    by (auto split: sum.splits)
  from "3.hyps"(2) [OF g1 ps refl g2 pv] have lt2: "pos1 + 1 < pos2" .
  from eq g1 ps g2 pv obtain k where key: "key = JString k"
    by (auto split: jvalue.splits)
  show ?case
  proof (cases "\<not> length tokens \<le> pos2 \<and> Type (tokens ! pos2) \<noteq> TokenObjectEnd
                 \<and> Type (tokens ! pos2) = TokenComma")
    case True
    with eq g1 ps g2 pv key
    have "objectLoop prim pf tokens data (pos2 + 1) (AList.update k v' obj) = Inr (v, p)"
      by (auto simp: Let_def)
    from "3.hyps"(3) [OF g1 ps refl g2 pv refl key refl _ _ _ this] True
    have "pos2 + 1 < p" by simp
    with lt2 pos1 show ?thesis by simp
  next
    case False
    with eq g1 ps g2 pv key have "p = pos2 + 1"
      by (auto simp: Let_def split: if_splits)
    with lt2 pos1 show ?thesis by simp
  qed
next
  case (4 prim pf tokens data pos)
  show ?case
  proof (cases "pos + 1 < length tokens \<and> Type (tokens ! (pos + 1)) = TokenArrayEnd")
    case True
    with "4.prems" show ?thesis
      by (subst (asm) parseArray.psimps [OF "4.hyps"(1)]) auto
  next
    case False
    with "4.prems" have "arrayLoop prim pf tokens data (pos + 1) [] = Inr (v, p)"
      by (subst (asm) parseArray.psimps [OF "4.hyps"(1)]) auto
    from "4.hyps"(2) [OF False this] show ?thesis by simp
  qed
next
  case (5 prim pf tokens data pos arr)
  note eq = "5.prems" [unfolded arrayLoop.psimps [OF "5.hyps"(1)]]
  from eq obtain v' pos1 where pv: "parseValue prim pf tokens data pos = Inr (v', pos1)"
    by (auto split: sum.splits)
  from "5.hyps"(2) [OF pv] have lt1: "pos < pos1" .
  show ?case
  proof (cases "\<not> length tokens \<le> pos1 \<and> Type (tokens ! pos1) \<noteq> TokenArrayEnd
                 \<and> Type (tokens ! pos1) = TokenComma")
    case True
    with eq pv have "arrayLoop prim pf tokens data (pos1 + 1) (arr @ [v']) = Inr (v, p)"
      by (auto simp: Let_def)
    from "5.hyps"(3) [OF pv refl refl _ _ _ this] True have "pos1 + 1 < p" by simp
    with lt1 show ?thesis by simp
  next
    case False
    with eq pv have "p = pos1 + 1"
      by (auto simp: Let_def split: if_splits)
    with lt1 show ?thesis by simp
  qed
qed

termination parseValue
proof (relation "measure (\<lambda>x. case x of
      Inl (Inl (prim, pf, tokens, data, pos)) \<Rightarrow>
        (if pos < length tokens then 4 * (length tokens - pos) + 2 else 0)
    | Inl (Inr (prim, pf, tokens, data, pos)) \<Rightarrow>
        (if pos < length tokens then 4 * (length tokens - pos) + 1 else 2)
    | Inr (Inl (prim, pf, tokens, data, pos, obj)) \<Rightarrow>
        (if pos < length tokens then 4 * (length tokens - pos) + 3 else 1)
    | Inr (Inr (Inl (prim, pf, tokens, data, pos))) \<Rightarrow>
        (if pos < length tokens then 4 * (length tokens - pos) + 1 else 2)
    | Inr (Inr (Inr (prim, pf, tokens, data, pos, arr))) \<Rightarrow>
        (if pos < length tokens then 4 * (length tokens - pos) + 3 else 1))", goal_cases)
  case 1
  show ?case by simp
next
  case (2 prim pf tokens data pos)
  then show ?case by simp
next
  case (3 prim pf tokens data pos)
  then show ?case by simp
next
  case (4 prim pf tokens data pos)
  then show ?case by auto
next
  case (5 prim pf tokens data pos obj b x y)
  from 5(2,3) have "y = pos + 1" using parseString_pos [of tokens data pos x y] by simp
  with 5(1,4) show ?case by auto
next
  case (6 prim pf tokens data pos obj b x y ba xa ya x5 xb)
  from 6(2,3) have y: "y = pos + 1" using parseString_pos [of tokens data pos x y] by simp
  from 6(5,6) have "parseValue prim pf tokens data (y + 1) = Inr (xa, ya)" by simp
  from parse_pos_dom(1) [OF 6(12) this] have "y + 1 < ya" .
  with y 6(1,9) show ?case by auto
next
  case (7 prim pf tokens data pos)
  then show ?case by auto
next
  case (8 prim pf tokens data pos arr)
  then show ?case by simp
next
  case (9 prim pf tokens data pos arr b x y xa)
  from 9(1,2) have "parseValue prim pf tokens data pos = Inr (x, y)" by simp
  from parse_pos_dom(1) [OF 9(7) this] have "pos < y" .
  with 9(4) show ?case by auto
qed

declare parseValue.simps [simp del] parseObject.simps [simp del] objectLoop.simps [simp del]
  parseArray.simps [simp del] arrayLoop.simps [simp del]

text \<open>
  \<open>Parse\<close> tokenizes, rejects an empty token sequence and returns the first value; the
  position reached by \<open>parseValue\<close> is dropped.
\<close>

definition Parse ::
  "(byte list \<Rightarrow> int \<times> bool) \<Rightarrow> (byte list \<Rightarrow> error + 'f) \<Rightarrow> byte list \<Rightarrow> error + 'f jvalue" where
  "Parse prim pf data =
     (case SimpleTokenize data of
        Inl e \<Rightarrow> Inl e
      | Inr tokens \<Rightarrow>
          if length tokens = 0 then Inl EmptyJSON
          else
            (case parseValue prim pf tokens data 0 of
               Inl e \<Rightarrow> Inl e
             | Inr (result, pos) \<Rightarrow> Inr result))"

section \<open>Reference notions\<close>

text \<open>
  Well-formed UTF-8 as the Unicode standard defines it (table 3-7, well-formed UTF-8 byte
  sequences): \<open>utf8SeqLen s\<close> is the length of the well-formed sequence at the head of
  \<open>s\<close>, or \<open>0\<close> when there is none.
\<close>

definition isCont :: "byte \<Rightarrow> bool" where
  "isCont c \<longleftrightarrow> 0x80 \<le> c \<and> c \<le> 0xBF"

definition utf8SeqLen :: "byte list \<Rightarrow> nat" where
  "utf8SeqLen s =
     (case s of
        [] \<Rightarrow> 0
      | c0 # r \<Rightarrow>
          if c0 \<le> 0x7F then 1
          else if 0xC2 \<le> c0 \<and> c0 \<le> 0xDF then
            (if length r \<ge> 1 \<and> isCont (r ! 0) then 2 else 0)
          else if 0xE0 \<le> c0 \<and> c0 \<le> 0xEF then
            (if length r \<ge> 2 \<and> isCont (r ! 0) \<and> isCont (r ! 1)
                \<and> (c0 = 0xE0 \<longrightarrow> 0xA0 \<le> r ! 0) \<and> (c0 = 0xED \<longrightarrow> r ! 0 \<le> 0x9F)
             then 3 else 0)
          else if 0xF0 \<le> c0 \<and> c0 \<le> 0xF4 then
            (if length r \<ge> 3 \<and> isCont (r ! 0) \<and> isCont (r ! 1) \<and> isCont (r ! 2)
                \<and> (c0 = 0xF0 \<longrightarrow> 0x90 \<le> r ! 0) \<and> (c0 = 0xF4 \<longrightarrow> r ! 0 \<le> 0x8F)
             then 4 else 0)
          else 0)"

function wellFormedUTF8 :: "byte list \<Rightarrow> bool" where
  "wellFormedUTF8 s =
     (if s = [] then True
      else if utf8SeqLen s = 0 then False
      else wellFormedUTF8 (drop (utf8SeqLen s) s))"
  by pat_completeness auto
termination wellFormedUTF8
  by (relation "measure length") auto

declare wellFormedUTF8.simps [simp del]

text \<open>
  The escape state of the scalar quote scan after a prefix of the buffer, as the pair
  \<open>(inString, escaped)\<close>.
\<close>

definition quoteStep :: "bool \<times> bool \<Rightarrow> byte \<Rightarrow> bool \<times> bool" where
  "quoteStep st b =
     (case st of (inString, escaped) \<Rightarrow>
        if escaped then (inString, False)
        else if b = ch_backslash \<and> inString then (inString, True)
        else if b = ch_quote then (\<not> inString, False)
        else (inString, False))"

definition quoteState :: "byte list \<Rightarrow> bool \<times> bool" where
  "quoteState bs = foldl quoteStep (False, False) bs"

definition maskBit :: "64 word list \<Rightarrow> nat \<Rightarrow> bool" where
  "maskBit masks i \<longleftrightarrow> i div 64 < length masks \<and> bit (masks ! (i div 64)) (i mod 64)"


subsection \<open>The grammar of values over a token sequence\<close>

text \<open>
  The grammar of the spec over a token sequence, with the value it denotes:
  \<^verbatim>\<open>Value := Object | Array | String | Number | True | False | Null\<close>,
  \<^verbatim>\<open>Object := '{' (String ':' Value (',' String ':' Value)*)? '}'\<close>,
  \<^verbatim>\<open>Array := '[' (Value (',' Value)*)? ']'\<close>.
  \<open>completeValue prim pf data ts r\<close>: the tokens \<open>ts\<close> are exactly one value of the
  grammar, and \<open>r\<close> is that value, or the error of its first string or number (from the
  left) that does not materialise.  The text of a string token is the span between its
  first and last byte, unescaped when it contains a backslash; a number token is
  materialised from its bytes; in an object the last occurrence of a key wins.
\<close>

definition lexeme :: "byte list \<Rightarrow> Token \<Rightarrow> byte list" where
  "lexeme data t = take (End t - Start t) (drop (Start t) data)"

definition stringText :: "byte list \<Rightarrow> Token \<Rightarrow> error + byte list" where
  "stringText data t =
     (let span = take (End t - Start t - 2) (drop (Start t + 1) data)
      in if containsEscape span then unescapeString span else Inr span)"

inductive completeValue ::
    "(byte list \<Rightarrow> int \<times> bool) \<Rightarrow> (byte list \<Rightarrow> error + 'f) \<Rightarrow> byte list \<Rightarrow> Token list
      \<Rightarrow> error + 'f jvalue \<Rightarrow> bool"
  and arrayElements ::
    "(byte list \<Rightarrow> int \<times> bool) \<Rightarrow> (byte list \<Rightarrow> error + 'f) \<Rightarrow> byte list \<Rightarrow> Token list
      \<Rightarrow> error + 'f jvalue list \<Rightarrow> bool"
  and objectMembers ::
    "(byte list \<Rightarrow> int \<times> bool) \<Rightarrow> (byte list \<Rightarrow> error + 'f) \<Rightarrow> byte list \<Rightarrow> Token list
      \<Rightarrow> error + (byte list \<times> 'f jvalue) list \<Rightarrow> bool"
  for prim :: "byte list \<Rightarrow> int \<times> bool" and pf :: "byte list \<Rightarrow> error + 'f" and data :: "byte list"
where
  vTrue: "Type t = TokenTrue \<Longrightarrow> completeValue prim pf data [t] (Inr (JBool True))"
| vFalse: "Type t = TokenFalse \<Longrightarrow> completeValue prim pf data [t] (Inr (JBool False))"
| vNull: "Type t = TokenNull \<Longrightarrow> completeValue prim pf data [t] (Inr JNull)"
| vString: "Type t = TokenString \<Longrightarrow>
     completeValue prim pf data [t]
       (case stringText data t of Inl e \<Rightarrow> Inl e | Inr s \<Rightarrow> Inr (JString s))"
| vNumber: "Type t = TokenNumber \<Longrightarrow>
     completeValue prim pf data [t] (numberValue prim pf (lexeme data t))"
| vEmptyArray: "Type l = TokenArrayBegin \<Longrightarrow> Type r = TokenArrayEnd \<Longrightarrow>
     completeValue prim pf data [l, r] (Inr (JArray []))"
| vArray: "Type l = TokenArrayBegin \<Longrightarrow> arrayElements prim pf data ts rs \<Longrightarrow>
     Type r = TokenArrayEnd \<Longrightarrow>
     completeValue prim pf data (l # ts @ [r])
       (case rs of Inl e \<Rightarrow> Inl e | Inr vs \<Rightarrow> Inr (JArray vs))"
| vEmptyObject: "Type l = TokenObjectBegin \<Longrightarrow> Type r = TokenObjectEnd \<Longrightarrow>
     completeValue prim pf data [l, r] (Inr (JObject []))"
| vObject: "Type l = TokenObjectBegin \<Longrightarrow> objectMembers prim pf data ts ms \<Longrightarrow>
     Type r = TokenObjectEnd \<Longrightarrow>
     completeValue prim pf data (l # ts @ [r])
       (case ms of
          Inl e \<Rightarrow> Inl e
        | Inr kvs \<Rightarrow> Inr (JObject (foldl (\<lambda>obj (k, v). AList.update k v obj) [] kvs)))"
| eLast: "completeValue prim pf data ts r \<Longrightarrow>
     arrayElements prim pf data ts (case r of Inl e \<Rightarrow> Inl e | Inr v \<Rightarrow> Inr [v])"
| eMore: "completeValue prim pf data ts r \<Longrightarrow> Type c = TokenComma \<Longrightarrow>
     arrayElements prim pf data ts' rs \<Longrightarrow>
     arrayElements prim pf data (ts @ c # ts')
       (case r of
          Inl e \<Rightarrow> Inl e
        | Inr v \<Rightarrow> (case rs of Inl e \<Rightarrow> Inl e | Inr vs \<Rightarrow> Inr (v # vs)))"
| mLast: "Type k = TokenString \<Longrightarrow> Type c = TokenColon \<Longrightarrow> completeValue prim pf data ts r \<Longrightarrow>
     objectMembers prim pf data (k # c # ts)
       (case stringText data k of
          Inl e \<Rightarrow> Inl e
        | Inr key \<Rightarrow> (case r of Inl e \<Rightarrow> Inl e | Inr v \<Rightarrow> Inr [(key, v)]))"
| mMore: "Type k = TokenString \<Longrightarrow> Type c = TokenColon \<Longrightarrow> completeValue prim pf data ts r \<Longrightarrow>
     Type m = TokenComma \<Longrightarrow> objectMembers prim pf data ts' ms \<Longrightarrow>
     objectMembers prim pf data (k # c # ts @ m # ts')
       (case stringText data k of
          Inl e \<Rightarrow> Inl e
        | Inr key \<Rightarrow>
            (case r of
               Inl e \<Rightarrow> Inl e
             | Inr v \<Rightarrow> (case ms of Inl e \<Rightarrow> Inl e | Inr kvs \<Rightarrow> Inr ((key, v) # kvs))))"

definition tokenInBounds :: "byte list \<Rightarrow> Token \<Rightarrow> bool" where
  "tokenInBounds data t \<longleftrightarrow> Start t < End t \<and> End t \<le> length data"

subsection \<open>Decimal value of a lexeme\<close>



section \<open>Evaluation on concrete inputs\<close>

text \<open>The unfolding rules that evaluate the model on a concrete buffer.\<close>

named_theorems tok_eval
lemmas [tok_eval] = SimpleTokenize_def tokenizeLoop.simps skipWhitespace.simps skipDigits.simps
  scanString.simps lexToken_def lexNumber_def numSign_def numInt_def numFrac_def numExp_def
  numCheck_def bytes_of_def isWhitespace_def isDigit_def lookback_def uint32_def

named_theorems parse_eval
lemmas [parse_eval] = Parse_def parseValue.simps parseObject.simps objectLoop.simps parseArray.simps
  arrayLoop.simps parseString_def parseNumber_def numberValue_def slice_def sub32_def containsEscape_def
  unescapeString_def unescapeLoop.simps containsFloatCharsBytes_def ParseInt_def 
  decVal_def parseIntegerScalar_def digitLoop.simps wrap64_def Validate_def ParseUint16_def
  hexDigit_def encodeRune_def

section \<open>Token invariants\<close>

text \<open>
  \<open>ordered_from lo n ts\<close>: the tokens \<open>ts\<close> lie in \<open>[lo, n]\<close>, each is non-empty, and
  each starts at or after the end of the one before.
\<close>

fun ordered_from :: "nat \<Rightarrow> nat \<Rightarrow> Token list \<Rightarrow> bool" where
  "ordered_from lo n [] = True"
| "ordered_from lo n (t # ts) =
     (lo \<le> Start t \<and> Start t < End t \<and> End t \<le> n \<and> ordered_from (End t) n ts)"

lemma uint32_id: "n < 2 ^ 32 \<Longrightarrow> uint32 n = n"
  by (simp add: uint32_def)

lemma tokenizeLoop_ordered:
  assumes "tokenizeLoop data i acc = Inr toks" and "length data < 2 ^ 32"
  shows "\<exists>new. toks = acc @ new \<and> ordered_from i (length data) new"
  using assms
proof (induction data i acc arbitrary: toks rule: tokenizeLoop.induct)
  case (1 data i tokens)
  show ?case
  proof (cases "i < length data")
    case False
    with "1.prems"(1) show ?thesis by (subst (asm) tokenizeLoop.simps) simp
  next
    case True
    define i1 where "i1 = skipWhitespace data i"
    have ii1: "i \<le> i1" unfolding i1_def by (rule skipWhitespace_ge)
    show ?thesis
    proof (cases "i1 \<ge> length data")
      case True
      with \<open>i < length data\<close> "1.prems"(1) show ?thesis
        by (subst (asm) tokenizeLoop.simps) (simp add: i1_def)
    next
      case False
      define c where "c = data ! i1"
      from False \<open>i < length data\<close> "1.prems"(1)
      obtain ty i2 where lb: "lookback tokens c = None"
        and lx: "lexToken data c i1 = Inr (ty, i2)"
        and rec: "tokenizeLoop data i2
                   (tokens @ [\<lparr>Type = ty, Start = uint32 i1, End = uint32 i2\<rparr>]) = Inr toks"
        by (subst (asm) tokenizeLoop.simps)
           (auto simp: i1_def c_def Let_def split: option.splits sum.splits prod.splits)
      from False have i1lt: "i1 < length data" by simp
      from lexToken_bounds [OF lx i1lt] have b: "i1 < i2" "i2 \<le> length data" by auto
      from "1.IH" [OF \<open>i < length data\<close> i1_def False c_def lb lx refl rec "1.prems"(2)]
      obtain new where new: "toks = (tokens @ [\<lparr>Type = ty, Start = uint32 i1, End = uint32 i2\<rparr>]) @ new"
        and ord: "ordered_from i2 (length data) new" by blast
      have u1: "uint32 i1 = i1" and u2: "uint32 i2 = i2"
        using b i1lt "1.prems"(2) by (auto intro!: uint32_id)
      show ?thesis
        by (rule exI [of _ "\<lparr>Type = ty, Start = uint32 i1, End = uint32 i2\<rparr> # new"])
           (use new ord b ii1 u1 u2 in simp)
    qed
  qed
qed

lemma ordered_from_set:
  "ordered_from lo n ts \<Longrightarrow> t \<in> set ts \<Longrightarrow> lo \<le> Start t \<and> Start t < End t \<and> End t \<le> n"
  by (induction ts arbitrary: lo) (auto, fastforce+)

lemma ordered_from_adjacent:
  "ordered_from lo n ts \<Longrightarrow> Suc k < length ts \<Longrightarrow> End (ts ! k) \<le> Start (ts ! Suc k)"
proof (induction ts arbitrary: lo k)
  case Nil
  then show ?case by simp
next
  case (Cons t ts)
  show ?case
  proof (cases k)
    case 0
    with Cons.prems show ?thesis by (cases ts) auto
  next
    case (Suc k')
    with Cons.prems Cons.IH [of "End t" k'] show ?thesis by simp
  qed
qed

lemma skipWhitespace_replicate:
  "i \<le> n \<Longrightarrow> \<not> isWhitespace c \<Longrightarrow> skipWhitespace (replicate n 0x20 @ c # rest) i = n"
proof (induction "n - i" arbitrary: i)
  case 0
  then have "i = n" by simp
  with "0.prems" show ?case
    by (subst skipWhitespace.simps) (simp add: nth_append)
next
  case (Suc d)
  then have lt: "i < n" and d: "d = n - (i + 1)" by auto
  from Suc.hyps(1) [OF d] lt Suc.prems(2)
  have "skipWhitespace (replicate n 0x20 @ c # rest) (i + 1) = n" by simp
  with lt show ?case
    by (subst skipWhitespace.simps) (simp add: nth_append isWhitespace_def)
qed

lemma tokenize_padded_digit:
  "SimpleTokenize (replicate n 0x20 @ [0x31]) =
     Inr [\<lparr>Type = TokenNumber, Start = uint32 n, End = uint32 (n + 1)\<rparr>]"
proof -
  define data :: "byte list" where "data = replicate n 0x20 @ [0x31]"
  have len: "length data = n + 1" by (simp add: data_def)
  have at: "data ! n = 0x31" by (simp add: data_def nth_append)
  have ws: "skipWhitespace data 0 = n"
    unfolding data_def by (rule skipWhitespace_replicate) (simp_all add: isWhitespace_def)
  have dg: "skipDigits data n = n + 1"
    by (subst skipDigits.simps, subst skipDigits.simps) (simp add: len at isDigit_def)
  have lx: "lexToken data 0x31 n = Inr (TokenNumber, n + 1)"
    by (simp add: lexToken_def lexNumber_def numSign_def numInt_def numFrac_def numExp_def
        numCheck_def isDigit_def len at dg)
  have "tokenizeLoop data 0 [] = Inr [\<lparr>Type = TokenNumber, Start = uint32 n, End = uint32 (n + 1)\<rparr>]"
    by (subst tokenizeLoop.simps, subst tokenizeLoop.simps)
       (simp add: len ws at lookback_def lx)
  then show ?thesis
    by (simp add: SimpleTokenize_def len flip: data_def)
qed

text \<open>
  Claim C9, as the code has it: for a buffer of fewer than \<open>2 ^ 32\<close> bytes, every token
  returned by a successful \<open>SimpleTokenize\<close> satisfies \<open>Start < End \<le> len(data)\<close>, and each
  token starts at or after the end of the previous one.
\<close>

theorem SimpleTokenize_tokens_ordered:
  assumes "SimpleTokenize data = Inr toks" and "length data < 2 ^ 32"
  shows "(\<forall>t \<in> set toks. Start t < End t \<and> End t \<le> length data) \<and>
         (\<forall>k. Suc k < length toks \<longrightarrow> End (toks ! k) \<le> Start (toks ! Suc k))"
proof -
  from assms(1) have "tokenizeLoop data 0 [] = Inr toks"
    by (simp add: SimpleTokenize_def split: if_splits)
  from tokenizeLoop_ordered [OF this assms(2)]
  have ord: "ordered_from 0 (length data) toks" by simp
  show ?thesis
    using ordered_from_set [OF ord] ordered_from_adjacent [OF ord] by blast
qed

theorem SimpleTokenize_tokens_ordered_witness:
  "SimpleTokenize (bytes_of ''[1, 2]'') =
     Inr [\<lparr>Type = TokenArrayBegin, Start = 0, End = 1\<rparr>, \<lparr>Type = TokenNumber, Start = 1, End = 2\<rparr>,
          \<lparr>Type = TokenComma, Start = 2, End = 3\<rparr>, \<lparr>Type = TokenNumber, Start = 4, End = 5\<rparr>,
          \<lparr>Type = TokenArrayEnd, Start = 5, End = 6\<rparr>] \<and>
   length (bytes_of ''[1, 2]'') < 2 ^ 32 \<and>
   End \<lparr>Type = TokenComma, Start = 2, End = 3\<rparr> \<le> Start \<lparr>Type = TokenNumber, Start = 4, End = 5\<rparr> \<and>
   End \<lparr>Type = TokenArrayEnd, Start = 5, End = 6\<rparr> \<le> length (bytes_of ''[1, 2]'')"
proof -
  have tk: "SimpleTokenize (bytes_of ''[1, 2]'') =
     Inr [\<lparr>Type = TokenArrayBegin, Start = 0, End = 1\<rparr>, \<lparr>Type = TokenNumber, Start = 1, End = 2\<rparr>,
          \<lparr>Type = TokenComma, Start = 2, End = 3\<rparr>, \<lparr>Type = TokenNumber, Start = 4, End = 5\<rparr>,
          \<lparr>Type = TokenArrayEnd, Start = 5, End = 6\<rparr>]"
    by (simp add: tok_eval)
  have len: "length (bytes_of ''[1, 2]'') < 2 ^ 32" by (simp add: bytes_of_def)
  from SimpleTokenize_tokens_ordered [OF tk len] tk len show ?thesis
    by (simp add: bytes_of_def)
qed

text \<open>
  Claim C9 as stated, for every buffer, fails at a buffer of \<open>2 ^ 32\<close> bytes: the token of
  the digit at offset \<open>2 ^ 32 - 1\<close> gets \<^verbatim>\<open>End = uint32(4294967296) = 0\<close>.
\<close>

theorem SimpleTokenize_tokens_ordered_counterexample:
  "SimpleTokenize (replicate 4294967295 0x20 @ [0x31]) =
     Inr [\<lparr>Type = TokenNumber, Start = 4294967295, End = 0\<rparr>] \<and>
   \<not> Start \<lparr>Type = TokenNumber, Start = 4294967295, End = 0\<rparr>
       < End \<lparr>Type = TokenNumber, Start = 4294967295, End = 0\<rparr>"
  using tokenize_padded_digit [of 4294967295] by (simp add: uint32_def)

section \<open>Whitespace-only input\<close>

lemma skipWhitespace_all:
  "\<forall>c \<in> set data. isWhitespace c \<Longrightarrow> i \<le> length data \<Longrightarrow> skipWhitespace data i = length data"
proof (induction data i rule: skipWhitespace.induct)
  case (1 data i)
  show ?case
  proof (cases "i < length data")
    case True
    with "1.prems" have "isWhitespace (data ! i)" by simp
    with True "1.IH" "1.prems" show ?thesis
      by (subst skipWhitespace.simps) simp
  next
    case False
    with "1.prems" show ?thesis by (subst skipWhitespace.simps) simp
  qed
qed

text \<open>
  Claim C10: on a non-empty buffer of whitespace bytes only, \<open>SimpleTokenize\<close> returns the
  empty token sequence with no error, so \<open>Validate\<close> returns true and \<open>Parse\<close> returns the
  error "empty JSON"; of the buffers without content, only the zero-length one makes
  \<open>Validate\<close> return false.
\<close>

theorem whitespace_only_input:
  assumes "\<forall>c \<in> set data. isWhitespace c"
  shows "Validate data = Inr (data \<noteq> []) \<and>
         (data \<noteq> [] \<longrightarrow> SimpleTokenize data = Inr [] \<and> Parse prim pf data = Inl EmptyJSON)"
proof (cases "data = []")
  case True
  then show ?thesis by (simp add: Validate_def SimpleTokenize_def)
next
  case False
  have "skipWhitespace data 0 = length data"
    using skipWhitespace_all [OF assms, of 0] by simp
  then have "tokenizeLoop data 0 [] = Inr []"
    by (subst tokenizeLoop.simps) simp
  with False have tk: "SimpleTokenize data = Inr []"
    by (simp add: SimpleTokenize_def)
  then show ?thesis using False
    by (simp add: Validate_def Parse_def)
qed

theorem whitespace_only_input_witness:
  "Validate (bytes_of '' '') = Inr True \<and> SimpleTokenize (bytes_of '' '') = Inr [] \<and>
   Parse parseIntegerScalar (\<lambda>s. Inr s) (bytes_of '' '') = Inl EmptyJSON"
proof -
  have h: "\<forall>c \<in> set (bytes_of '' ''). isWhitespace c"
    by (simp add: bytes_of_def isWhitespace_def)
  have ne: "bytes_of '' '' \<noteq> []" by (simp add: bytes_of_def)
  from whitespace_only_input [OF h, of parseIntegerScalar "\<lambda>s. Inr s"] ne show ?thesis by simp
qed

section \<open>Unterminated strings\<close>

text \<open>
  Claim C3 at the input \<^verbatim>\<open>"abc\<close> (an opening quote and no closing quote): the string
  loop of \<open>SimpleTokenize\<close> runs off the end of the buffer and the token is appended with
  no error, \<open>Validate\<close> returns true, and \<open>Parse\<close> returns the string \<^verbatim>\<open>ab\<close>.
\<close>

theorem unterminated_string_accepted:
  "SimpleTokenize (ch_quote # bytes_of ''abc'') = Inr [\<lparr>Type = TokenString, Start = 0, End = 4\<rparr>] \<and>
   Validate (ch_quote # bytes_of ''abc'') = Inr True \<and>
   Parse parseIntegerScalar (\<lambda>s. Inr s) (ch_quote # bytes_of ''abc'') = Inr (JString (bytes_of ''ab''))"
proof -
  have tk: "SimpleTokenize (ch_quote # bytes_of ''abc'') = Inr [\<lparr>Type = TokenString, Start = 0, End = 4\<rparr>]"
    by (simp add: tok_eval)
  have "Validate (ch_quote # bytes_of ''abc'') = Inr True"
    unfolding Validate_def tk by simp
  moreover have "Parse parseIntegerScalar (\<lambda>s. Inr s) (ch_quote # bytes_of ''abc'') = Inr (JString (bytes_of ''ab''))"
    unfolding Parse_def tk
    by (simp add: parseValue.simps parseString_def slice_def sub32_def uint32_def
        containsEscape_def bytes_of_def)
  ultimately show ?thesis using tk by simp
qed

section \<open>SIMD path against the scalar baseline\<close>

lemma Scan_amd64_panics:
  "data \<noteq> [] \<Longrightarrow> hasAVX2 \<or> hasSSE42
     \<Longrightarrow> Scan_amd64 hasAVX2 hasSSE42 avx2Loop sse42Loop structuralIndices data = Inl Panic"
  by (auto simp: Scan_amd64_def scanSIMD_amd64_def Let_def make_def)

lemma scanSIMD_portable: "scanSIMD_arm64 buf = scanScalar buf" "scanSIMD_generic buf = scanScalar buf"
  by (simp_all add: scanSIMD_arm64_def scanSIMD_generic_def findStructuralIndicesNEON_def
      scanScalar_def scanScalarLoop.simps)

text \<open>
  Claim C2 at the one-byte buffer \<^verbatim>\<open>{\<close> on the amd64 build with AVX2 or SSE4.2: \<open>Scan\<close>
  truncates the index slice to length zero and \<open>scanSIMD\<close> then indexes its element
  \<open>0\<close>, which panics, where \<open>scanScalar\<close> yields the index list \<open>[0]\<close>.  Past the panic
  the two scans still differ: on the buffer \<^verbatim>\<open>1\<close> both assembly routines run only their
  remainder loop and find no structural byte, and \<open>scanScalar\<close> records the start of the
  value.
\<close>

theorem Scan_amd64_differs_from_scanScalar:
  "Scan_amd64 True True avx2Loop sse42Loop (make 0 1024) [ch_lbrace] = Inl Panic \<and>
   Scan_amd64 False True avx2Loop sse42Loop (make 0 1024) [ch_lbrace] = Inl Panic \<and>
   scanScalar [ch_lbrace] = [0] \<and>
   findStructuralIndicesAVX2 avx2Loop [0x31] = [] \<and>
   findStructuralIndicesSSE42 sse42Loop [0x31] = [] \<and> scanScalar [0x31] = [0]"
  by (simp add: Scan_amd64_def scanSIMD_amd64_def Let_def make_def scanScalar_def
      scanScalarLoop.simps charClassifier_def uint32_def findStructuralIndices_def
      findStructuralIndicesAVX2_def findStructuralIndicesSSE42_def remainderLoop_def)

section \<open>UTF-8 validation on a three-byte sequence\<close>

text \<open>
  Claim C4 at the bytes \<^verbatim>\<open>E4 B8 96\<close> (the character U+4E16, from the repository's test
  \<^verbatim>\<open>utf8_3byte\<close>): the sequence is well-formed UTF-8, and \<open>validateUTF8Scalar\<close>
  returns false, because \<open>decodeRuneInString\<close> rejects every lead byte from \<^verbatim>\<open>0xE0\<close> on.
\<close>

theorem validateUTF8Scalar_rejects_three_byte:
  "wellFormedUTF8 [0xE4, 0xB8, 0x96] \<and> \<not> validateUTF8Scalar [0xE4, 0xB8, 0x96] \<and>
   \<not> SIMDValidateUTF8 [0xE4, 0xB8, 0x96]"
  by (simp add: wellFormedUTF8.simps utf8SeqLen_def isCont_def SIMDValidateUTF8_def
      validateUTF8Scalar_def validateUTF8Loop.simps decodeRuneInString_def)


section \<open>Leading-integer parse on a non-digit\<close>

text \<open>
  Claim C6 at the input \<^verbatim>\<open>abc\<close>: the variant of \<open>parseIntegerScalar\<close> built on
  architectures other than amd64 and arm64 returns \<^verbatim>\<open>(0, true)\<close>, since it reports
  \<^verbatim>\<open>start < len(data)\<close>; the arm64 variant returns \<^verbatim>\<open>(0, false)\<close>.
\<close>

theorem parseIntegerScalar_generic_accepts_non_digit:
  "parseIntegerScalar_generic (bytes_of ''abc'') = (0, True) \<and>
   parseIntegerScalar (bytes_of ''abc'') = (0, False)"
  by (simp add: parseIntegerScalar_generic_def parseIntegerScalar_def digitLoop.simps bytes_of_def)

section \<open>The scalar quote mask\<close>

lemma maskBit_update:
  assumes "i div 64 < length masks"
  shows "maskBit (masks[i div 64 := masks ! (i div 64) OR push_bit (i mod 64) 1]) j
           \<longleftrightarrow> maskBit masks j \<or> j = i"
proof (cases "j div 64 = i div 64")
  case True
  have "j mod 64 = i mod 64 \<longleftrightarrow> j = i"
    using True by (metis div_mult_mod_eq)
  moreover have "bit (push_bit (i mod 64) 1 :: 64 word) (j mod 64) \<longleftrightarrow> j mod 64 = i mod 64"
    by (auto simp: bit_simps)
  ultimately show ?thesis using True assms
    by (simp add: maskBit_def bit_or_iff del: push_bit_of_1)
next
  case False
  then have "j \<noteq> i" by auto
  with False show ?thesis
    by (simp add: maskBit_def)
qed

lemma take_drop_step:
  "i < length data \<Longrightarrow> i < j
     \<Longrightarrow> take (j - i) (drop i data) = data ! i # take (j - (i + 1)) (drop (i + 1) data)"
proof -
  assume a: "i < length data" "i < j"
  then have "j - i = Suc (j - (i + 1))" by simp
  then show ?thesis using a(1)
    by (simp add: Cons_nth_drop_Suc [symmetric])
qed

lemma quoteMaskLoop_spec:
  assumes "length masks = (length data + 63) div 64"
  shows "\<exists>masks'. quoteMaskLoop data i inString escaped masks = Inr masks'
           \<and> length masks' = length masks
           \<and> (\<forall>j. maskBit masks' j \<longleftrightarrow>
                  maskBit masks j \<or>
                  (i \<le> j \<and> j < length data \<and> data ! j = ch_quote
                   \<and> \<not> snd (foldl quoteStep (inString, escaped) (take (j - i) (drop i data)))))"
  using assms
proof (induction data i inString escaped masks rule: quoteMaskLoop.induct)
  case (1 data i inString escaped masks)
  show ?case
  proof (cases "i < length data")
    case False
    then show ?thesis by (subst quoteMaskLoop.simps) auto
  next
    case True
    define b where "b = data ! i"
    have step: "foldl quoteStep (inString, escaped) (take (j - i) (drop i data)) =
        foldl quoteStep (quoteStep (inString, escaped) b) (take (j - (i + 1)) (drop (i + 1) data))"
      if "i < j" for j
      using take_drop_step [OF True that] by (simp add: b_def)
    have here: "foldl quoteStep (inString, escaped) (take (i - i) (drop i data)) = (inString, escaped)"
      by simp
    have split: "i \<le> j \<longleftrightarrow> j = i \<or> i + 1 \<le> j" for j by auto
    consider (esc) "escaped" | (bs) "\<not> escaped" "b = ch_backslash \<and> inString"
      | (q) "\<not> escaped" "\<not> (b = ch_backslash \<and> inString)" "b = ch_quote"
      | (other) "\<not> escaped" "\<not> (b = ch_backslash \<and> inString)" "b \<noteq> ch_quote"
      by blast
    then show ?thesis
    proof cases
      case esc
      from "1.IH"(1) [OF True b_def esc "1.prems"]
      obtain masks' where r: "quoteMaskLoop data (i + 1) inString False masks = Inr masks'"
        and l: "length masks' = length masks"
        and bits: "\<And>j. maskBit masks' j \<longleftrightarrow> maskBit masks j \<or>
                  (i + 1 \<le> j \<and> j < length data \<and> data ! j = ch_quote
                   \<and> \<not> snd (foldl quoteStep (inString, False) (take (j - (i + 1)) (drop (i + 1) data))))"
        by blast
      have qs: "quoteStep (inString, escaped) b = (inString, False)"
        using esc by (simp add: quoteStep_def)
      have "quoteMaskLoop data i inString escaped masks = Inr masks'"
        using True esc r by (subst quoteMaskLoop.simps) (simp add: b_def)
      moreover have "maskBit masks' j \<longleftrightarrow> maskBit masks j \<or>
                  (i \<le> j \<and> j < length data \<and> data ! j = ch_quote
                   \<and> \<not> snd (foldl quoteStep (inString, escaped) (take (j - i) (drop i data))))" for j
      proof (cases "j = i")
        case True
        with bits [of j] esc show ?thesis by simp
      next
        case False
        then show ?thesis using bits [of j] step [of j] qs by (cases "i < j") auto
      qed
      ultimately show ?thesis using l by blast
    next
      case bs
      from "1.IH"(2) [OF True b_def bs "1.prems"]
      obtain masks' where r: "quoteMaskLoop data (i + 1) inString True masks = Inr masks'"
        and l: "length masks' = length masks"
        and bits: "\<And>j. maskBit masks' j \<longleftrightarrow> maskBit masks j \<or>
                  (i + 1 \<le> j \<and> j < length data \<and> data ! j = ch_quote
                   \<and> \<not> snd (foldl quoteStep (inString, True) (take (j - (i + 1)) (drop (i + 1) data))))"
        by blast
      have qs: "quoteStep (inString, escaped) b = (inString, True)"
        using bs by (simp add: quoteStep_def)
      have "quoteMaskLoop data i inString escaped masks = Inr masks'"
        using True bs r by (subst quoteMaskLoop.simps) (simp add: b_def)
      moreover have "maskBit masks' j \<longleftrightarrow> maskBit masks j \<or>
                  (i \<le> j \<and> j < length data \<and> data ! j = ch_quote
                   \<and> \<not> snd (foldl quoteStep (inString, escaped) (take (j - i) (drop i data))))" for j
      proof (cases "j = i")
        case True
        with bits [of j] bs show ?thesis by (simp add: b_def)
      next
        case False
        then show ?thesis using bits [of j] step [of j] qs by (cases "i < j") auto
      qed
      ultimately show ?thesis using l by blast
    next
      case q
      define masks1 where "masks1 = masks[i div 64 := masks ! (i div 64) OR push_bit (i mod 64) 1]"
      have idx: "i div 64 < length masks"
        using True "1.prems" by simp
      have l1: "length masks1 = (length data + 63) div 64"
        using "1.prems" by (simp add: masks1_def)
      from "1.IH"(3) [OF True b_def q(1) q(2) q(3) refl refl idx l1 [unfolded masks1_def]]
      obtain masks' where r: "quoteMaskLoop data (i + 1) (\<not> inString) escaped masks1 = Inr masks'"
        and l: "length masks' = length masks1"
        and bits: "\<And>j. maskBit masks' j \<longleftrightarrow> maskBit masks1 j \<or>
                  (i + 1 \<le> j \<and> j < length data \<and> data ! j = ch_quote
                   \<and> \<not> snd (foldl quoteStep (\<not> inString, escaped) (take (j - (i + 1)) (drop (i + 1) data))))"
        unfolding masks1_def by blast
      have qs: "quoteStep (inString, escaped) b = (\<not> inString, escaped)"
        using q by (simp add: quoteStep_def)
      have m1: "maskBit masks1 j \<longleftrightarrow> maskBit masks j \<or> j = i" for j
        unfolding masks1_def by (rule maskBit_update [OF idx])
      have "quoteMaskLoop data i inString escaped masks = Inr masks'"
        using True q r idx by (subst quoteMaskLoop.simps) (simp add: b_def masks1_def Let_def)
      moreover have "maskBit masks' j \<longleftrightarrow> maskBit masks j \<or>
                  (i \<le> j \<and> j < length data \<and> data ! j = ch_quote
                   \<and> \<not> snd (foldl quoteStep (inString, escaped) (take (j - i) (drop i data))))" for j
      proof (cases "j = i")
        case True
        with bits [of j] m1 [of j] q \<open>i < length data\<close> show ?thesis by (simp add: b_def)
      next
        case False
        then show ?thesis using bits [of j] m1 [of j] step [of j] qs by (cases "i < j") auto
      qed
      moreover have "length masks' = length masks" using l by (simp add: masks1_def)
      ultimately show ?thesis by blast
    next
      case other
      from "1.IH"(4) [OF True b_def other "1.prems"]
      obtain masks' where r: "quoteMaskLoop data (i + 1) inString escaped masks = Inr masks'"
        and l: "length masks' = length masks"
        and bits: "\<And>j. maskBit masks' j \<longleftrightarrow> maskBit masks j \<or>
                  (i + 1 \<le> j \<and> j < length data \<and> data ! j = ch_quote
                   \<and> \<not> snd (foldl quoteStep (inString, escaped) (take (j - (i + 1)) (drop (i + 1) data))))"
        by blast
      have qs: "quoteStep (inString, escaped) b = (inString, escaped)"
        using other by (simp add: quoteStep_def)
      have "quoteMaskLoop data i inString escaped masks = Inr masks'"
        using True other r by (subst quoteMaskLoop.simps) (auto simp: b_def Let_def)
      moreover have "maskBit masks' j \<longleftrightarrow> maskBit masks j \<or>
                  (i \<le> j \<and> j < length data \<and> data ! j = ch_quote
                   \<and> \<not> snd (foldl quoteStep (inString, escaped) (take (j - i) (drop i data))))" for j
      proof (cases "j = i")
        case True
        with bits [of j] other show ?thesis by (simp add: b_def)
      next
        case False
        then show ?thesis using bits [of j] step [of j] qs by (cases "i < j") auto
      qed
      ultimately show ?thesis using l by blast
    qed
  qed
qed


text \<open>
  Claim C5, as the code has it: the quote mask has one 64-bit word for each 64 bytes, and
  bit \<open>i\<close> is set exactly when byte \<open>i\<close> is a quote byte that the scan does not reach in
  its escaped state, that is, that does not directly follow a backslash which the scan
  took, inside a string, as the start of an escape.
\<close>

theorem generateQuoteMaskScalar_bits:
  "\<exists>masks. generateQuoteMaskScalar data = Inr masks
     \<and> length masks = (length data + 63) div 64
     \<and> (\<forall>i. maskBit masks i \<longleftrightarrow>
            i < length data \<and> data ! i = ch_quote \<and> \<not> snd (quoteState (take i data)))"
proof -
  define masks0 :: "64 word list" where "masks0 = replicate ((length data + 63) div 64) 0"
  have l0: "length masks0 = (length data + 63) div 64" by (simp add: masks0_def)
  have z: "\<not> maskBit masks0 j" for j
    by (simp add: maskBit_def masks0_def)
  from quoteMaskLoop_spec [OF l0, of 0 False False]
  obtain masks where r: "quoteMaskLoop data 0 False False masks0 = Inr masks"
    and l: "length masks = length masks0"
    and bits: "\<And>j. maskBit masks j \<longleftrightarrow> maskBit masks0 j \<or>
        (0 \<le> j \<and> j < length data \<and> data ! j = ch_quote
         \<and> \<not> snd (foldl quoteStep (False, False) (take (j - 0) (drop 0 data))))"
    by blast
  have "generateQuoteMaskScalar data = Inr masks"
    using r by (simp add: generateQuoteMaskScalar_def masks0_def Let_def)
  with l l0 bits z show ?thesis
    by (auto simp: quoteState_def)
qed


theorem generateQuoteMaskScalar_bits_witness:
  "generateQuoteMaskScalar [ch_quote, 0x61, ch_quote] = Inr [5] \<and> maskBit [5] 2 \<and> \<not> maskBit [5] 1"
proof -
  have ev: "generateQuoteMaskScalar [ch_quote, 0x61, ch_quote] = Inr [5]"
    by (simp add: generateQuoteMaskScalar_def quoteMaskLoop.simps Let_def)
  obtain masks where m: "generateQuoteMaskScalar [ch_quote, 0x61, ch_quote] = Inr masks"
    and bits: "\<And>i. maskBit masks i \<longleftrightarrow>
          i < length [ch_quote, 0x61, ch_quote] \<and> [ch_quote, 0x61, ch_quote] ! i = ch_quote
          \<and> \<not> snd (quoteState (take i [ch_quote, 0x61, ch_quote]))"
    using generateQuoteMaskScalar_bits [of "[ch_quote, 0x61, ch_quote]"] by blast
  from m ev have eq: "masks = [5]" by simp
  have "maskBit [5] 2"
    using bits [of 2] unfolding eq by (simp add: quoteState_def quoteStep_def)
  moreover have "\<not> maskBit [5] 1"
    using bits [of 1] unfolding eq by (simp add: quoteState_def quoteStep_def)
  ultimately show ?thesis using ev by simp
qed

text \<open>
  Claim C5 as stated fails at the four bytes \<^verbatim>\<open>"\""\<close>: byte \<open>2\<close> is a raw quote byte
  preceded by a backslash, and its bit is not set (the mask is \<open>9\<close>, bits \<open>0\<close> and \<open>3\<close>).
\<close>

theorem generateQuoteMaskScalar_bits_counterexample:
  "generateQuoteMaskScalar [ch_quote, ch_backslash, ch_quote, ch_quote] = Inr [9] \<and>
   [ch_quote, ch_backslash, ch_quote, ch_quote] ! 2 = ch_quote \<and> \<not> maskBit [9] 2"
  by (simp add: generateQuoteMaskScalar_def quoteMaskLoop.simps Let_def maskBit_def)

section \<open>The first complete value and trailing tokens\<close>

lemma drop_Cons_nth:
  assumes "drop pos tokens = t # rest"
  shows "pos < length tokens" and "tokens ! pos = t" and "drop (pos + 1) tokens = rest"
proof -
  show lt: "pos < length tokens"
  proof (rule ccontr)
    assume "\<not> pos < length tokens"
    then have "drop pos tokens = []" by simp
    with assms show False by simp
  qed
  from Cons_nth_drop_Suc [OF lt] assms show "tokens ! pos = t" by simp
  from Cons_nth_drop_Suc [OF lt] assms show "drop (pos + 1) tokens = rest" by simp
qed

lemma drop_append_rest:
  assumes "drop pos tokens = ts @ rest"
  shows "drop (pos + length ts) tokens = rest"
proof -
  have "drop (pos + length ts) tokens = drop (length ts) (drop pos tokens)"
    by (simp add: add.commute)
  then show ?thesis using assms by simp
qed

lemma sub32_one: "0 < n \<Longrightarrow> n < 2 ^ 32 \<Longrightarrow> sub32 n 1 = n - 1"
proof -
  assume a: "0 < n" "n < 2 ^ 32"
  have "n + 2 ^ 32 - 1 = (n - 1) + 1 * 2 ^ 32" using a by simp
  then have "(n + 2 ^ 32 - 1) mod 2 ^ 32 = (n - 1) mod 2 ^ 32"
    by (simp only: mod_mult_self1)
  also have "\<dots> = n - 1" using a by simp
  finally show ?thesis by (simp add: sub32_def)
qed


lemma parseString_leaf:
  assumes pos: "pos < length tokens" and ok: "tokenInBounds data (tokens ! pos)"
    and len: "length data < 2 ^ 32"
  shows "parseString tokens data pos =
     (case stringText data (tokens ! pos) of Inl e \<Rightarrow> Inl e | Inr s \<Rightarrow> Inr (JString s, pos + 1))"
proof -
  define t where "t = tokens ! pos"
  from ok have se: "Start t < End t" and el: "End t \<le> length data"
    by (simp_all add: tokenInBounds_def t_def)
  have u: "uint32 (Start t + 1) = Start t + 1"
    using se el len by (intro uint32_id) simp
  have s: "sub32 (End t) 1 = End t - 1"
    using se el len by (intro sub32_one) simp_all
  show ?thesis
  proof (cases "End t - Start t \<le> 2")
    case True
    then have "Start t + 1 \<ge> End t - 1" by simp
    moreover from True have "stringText data t = Inr []"
      by (simp add: stringText_def containsEscape_def)
    ultimately show ?thesis
      using pos unfolding parseString_def Let_def t_def [symmetric] u s by simp
  next
    case False
    then have ng: "\<not> Start t + 1 \<ge> End t - 1" by simp
    have sl: "slice data (Start t + 1) (End t - 1)
                = Inr (take (End t - Start t - 2) (drop (Start t + 1) data))"
    proof -
      from False el have "Start t + 1 \<le> End t - 1" and "End t - 1 \<le> length data"
        and "End t - 1 - (Start t + 1) = End t - Start t - 2" by linarith+
      then show ?thesis by (simp only: slice_def) simp
    qed
    show ?thesis
      using pos ng unfolding parseString_def Let_def t_def [symmetric] u s sl stringText_def
      by (simp split: sum.splits)
  qed
qed

lemma parseNumber_leaf:
  assumes pos: "pos < length tokens" and ok: "tokenInBounds data (tokens ! pos)"
  shows "parseNumber prim pf tokens data pos =
     (case numberValue prim pf (lexeme data (tokens ! pos)) of
        Inl e \<Rightarrow> Inl e | Inr v \<Rightarrow> Inr (v, pos + 1))"
  using assms by (simp add: parseNumber_def slice_def lexeme_def tokenInBounds_def Let_def)

lemma completeValue_nonempty:
  shows "completeValue prim pf data ts r \<Longrightarrow> ts \<noteq> [] \<and> Type (hd ts) \<noteq> TokenArrayEnd \<and> Type (hd ts) \<noteq> TokenObjectEnd"
    and "arrayElements prim pf data ts rs \<Longrightarrow> ts \<noteq> [] \<and> Type (hd ts) \<noteq> TokenArrayEnd"
    and "objectMembers prim pf data ts ms \<Longrightarrow> ts \<noteq> [] \<and> Type (hd ts) \<noteq> TokenObjectEnd"
  by (induction rule: completeValue_arrayElements_objectMembers.inducts) auto

text \<open>
  The parser on a token sequence whose part from \<open>pos\<close> on begins with a complete value
  returns what the grammar says of the value, and the position after it, whatever follows.
\<close>

lemma parse_completeValue:
  fixes pf :: "byte list \<Rightarrow> error + 'f"
  assumes allok: "\<forall>t \<in> set tokens. tokenInBounds data t" and len: "length data < 2 ^ 32"
  shows "completeValue prim pf data ts r \<Longrightarrow>
           (\<forall>pos rest. drop pos tokens = ts @ rest \<longrightarrow>
              parseValue prim pf tokens data pos =
                (case r of Inl e \<Rightarrow> Inl e | Inr v \<Rightarrow> Inr (v, pos + length ts)))"
    and "arrayElements prim pf data ts rs \<Longrightarrow>
           (\<forall>pos cl rest arr. drop pos tokens = ts @ cl # rest \<longrightarrow> Type cl = TokenArrayEnd \<longrightarrow>
              arrayLoop prim pf tokens data pos arr =
                (case rs of Inl e \<Rightarrow> Inl e | Inr vs \<Rightarrow> Inr (JArray (arr @ vs), pos + length ts + 1)))"
    and "objectMembers prim pf data ts ms \<Longrightarrow>
           (\<forall>pos cl rest obj. drop pos tokens = ts @ cl # rest \<longrightarrow> Type cl = TokenObjectEnd \<longrightarrow>
              objectLoop prim pf tokens data pos obj =
                (case ms of
                   Inl e \<Rightarrow> Inl e
                 | Inr kvs \<Rightarrow>
                     Inr (JObject (foldl (\<lambda>obj (k, v). AList.update k v obj) obj kvs),
                          pos + length ts + 1)))"
proof (induction rule: completeValue_arrayElements_objectMembers.inducts)
  case (vTrue t)
  show ?case
  proof (intro allI impI)
    fix pos rest assume "drop pos tokens = [t] @ rest"
    then have d: "drop pos tokens = t # rest" by simp
    from drop_Cons_nth [OF d] vTrue show "parseValue prim pf tokens data pos =
        (case Inr (JBool True) of Inl e \<Rightarrow> Inl e | Inr v \<Rightarrow> Inr (v, pos + length [t]))"
      by (subst parseValue.simps) simp
  qed
next
  case (vFalse t)
  show ?case
  proof (intro allI impI)
    fix pos rest assume "drop pos tokens = [t] @ rest"
    then have d: "drop pos tokens = t # rest" by simp
    from drop_Cons_nth [OF d] vFalse show "parseValue prim pf tokens data pos =
        (case Inr (JBool False) of Inl e \<Rightarrow> Inl e | Inr v \<Rightarrow> Inr (v, pos + length [t]))"
      by (subst parseValue.simps) simp
  qed
next
  case (vNull t)
  show ?case
  proof (intro allI impI)
    fix pos rest assume "drop pos tokens = [t] @ rest"
    then have d: "drop pos tokens = t # rest" by simp
    from drop_Cons_nth [OF d] vNull show "parseValue prim pf tokens data pos =
        (case Inr JNull of Inl e \<Rightarrow> Inl e | Inr v \<Rightarrow> Inr (v, pos + length [t]))"
      by (subst parseValue.simps) simp
  qed
next
  case (vString t)
  show ?case
  proof (intro allI impI)
    fix pos rest assume "drop pos tokens = [t] @ rest"
    then have d: "drop pos tokens = t # rest" by simp
    note n = drop_Cons_nth [OF d]
    from n(1) allok have ok: "tokenInBounds data (tokens ! pos)" by (simp only: nth_mem)
    have "parseValue prim pf tokens data pos = parseString tokens data pos"
      using n vString by (subst parseValue.simps) simp
    also note parseString_leaf [OF n(1) ok len]
    finally show "parseValue prim pf tokens data pos =
        (case (case stringText data t of Inl e \<Rightarrow> Inl e | Inr s \<Rightarrow> Inr (JString s)) of
           Inl e \<Rightarrow> Inl e | Inr v \<Rightarrow> Inr (v, pos + length [t]))"
      using n by (simp split: sum.splits)
  qed
next
  case (vNumber t)
  show ?case
  proof (intro allI impI)
    fix pos rest assume "drop pos tokens = [t] @ rest"
    then have d: "drop pos tokens = t # rest" by simp
    note n = drop_Cons_nth [OF d]
    from n(1) allok have ok: "tokenInBounds data (tokens ! pos)" by (simp only: nth_mem)
    have "parseValue prim pf tokens data pos = parseNumber prim pf tokens data pos"
      using n vNumber by (subst parseValue.simps) simp
    also note parseNumber_leaf [OF n(1) ok]
    finally show "parseValue prim pf tokens data pos =
        (case numberValue prim pf (lexeme data t) of
           Inl e \<Rightarrow> Inl e | Inr v \<Rightarrow> Inr (v, pos + length [t]))"
      using n by (simp split: sum.splits)
  qed
next
  case (vEmptyArray l r)
  show ?case
  proof (intro allI impI)
    fix pos rest assume "drop pos tokens = [l, r] @ rest"
    then have d: "drop pos tokens = l # r # rest" by simp
    note n = drop_Cons_nth [OF d]
    note n1 = drop_Cons_nth [OF n(3)]
    have "parseValue prim pf tokens data pos = parseArray prim pf tokens data pos"
      using n vEmptyArray by (subst parseValue.simps) simp
    also have "\<dots> = Inr (JArray [], pos + 2)"
      using n1 vEmptyArray by (subst parseArray.simps) simp
    finally show "parseValue prim pf tokens data pos =
        (case Inr (JArray []) of Inl e \<Rightarrow> Inl e | Inr v \<Rightarrow> Inr (v, pos + length [l, r]))"
      by simp
  qed
next
  case (vArray l ts rs r)
  show ?case
  proof (intro allI impI)
    fix pos rest assume "drop pos tokens = (l # ts @ [r]) @ rest"
    then have d: "drop pos tokens = l # ts @ r # rest" by simp
    note n = drop_Cons_nth [OF d]
    from completeValue_nonempty(2) [OF \<open>arrayElements prim pf data ts rs\<close>] obtain h ts0 where
      ts: "ts = h # ts0" and h: "Type h \<noteq> TokenArrayEnd" by (cases ts) auto
    from n(3) ts have "drop (pos + 1) tokens = h # ts0 @ r # rest" by simp
    note n1 = drop_Cons_nth [OF this]
    have "parseValue prim pf tokens data pos = parseArray prim pf tokens data pos"
      using n \<open>Type l = TokenArrayBegin\<close> by (subst parseValue.simps) simp
    also have "\<dots> = arrayLoop prim pf tokens data (pos + 1) []"
      using n1 h by (subst parseArray.simps) simp
    also have "\<dots> = (case rs of Inl e \<Rightarrow> Inl e
                      | Inr vs \<Rightarrow> Inr (JArray ([] @ vs), pos + 1 + length ts + 1))"
      using vArray.IH n(3) \<open>Type r = TokenArrayEnd\<close> by blast
    finally show "parseValue prim pf tokens data pos =
        (case (case rs of Inl e \<Rightarrow> Inl e | Inr vs \<Rightarrow> Inr (JArray vs)) of
           Inl e \<Rightarrow> Inl e | Inr v \<Rightarrow> Inr (v, pos + length (l # ts @ [r])))"
      by (simp split: sum.splits)
  qed
next
  case (vEmptyObject l r)
  show ?case
  proof (intro allI impI)
    fix pos rest assume "drop pos tokens = [l, r] @ rest"
    then have d: "drop pos tokens = l # r # rest" by simp
    note n = drop_Cons_nth [OF d]
    note n1 = drop_Cons_nth [OF n(3)]
    have "parseValue prim pf tokens data pos = parseObject prim pf tokens data pos"
      using n vEmptyObject by (subst parseValue.simps) simp
    also have "\<dots> = Inr (JObject [], pos + 2)"
      using n1 vEmptyObject by (subst parseObject.simps) simp
    finally show "parseValue prim pf tokens data pos =
        (case Inr (JObject []) of Inl e \<Rightarrow> Inl e | Inr v \<Rightarrow> Inr (v, pos + length [l, r]))"
      by simp
  qed
next
  case (vObject l ts ms r)
  show ?case
  proof (intro allI impI)
    fix pos rest assume "drop pos tokens = (l # ts @ [r]) @ rest"
    then have d: "drop pos tokens = l # ts @ r # rest" by simp
    note n = drop_Cons_nth [OF d]
    from completeValue_nonempty(3) [OF \<open>objectMembers prim pf data ts ms\<close>] obtain h ts0 where
      ts: "ts = h # ts0" and h: "Type h \<noteq> TokenObjectEnd" by (cases ts) auto
    from n(3) ts have "drop (pos + 1) tokens = h # ts0 @ r # rest" by simp
    note n1 = drop_Cons_nth [OF this]
    have "parseValue prim pf tokens data pos = parseObject prim pf tokens data pos"
      using n \<open>Type l = TokenObjectBegin\<close> by (subst parseValue.simps) simp
    also have "\<dots> = objectLoop prim pf tokens data (pos + 1) []"
      using n1 h by (subst parseObject.simps) simp
    also have "\<dots> = (case ms of Inl e \<Rightarrow> Inl e
                      | Inr kvs \<Rightarrow> Inr (JObject (foldl (\<lambda>obj (k, v). AList.update k v obj) [] kvs),
                                        pos + 1 + length ts + 1))"
      using vObject.IH n(3) \<open>Type r = TokenObjectEnd\<close> by blast
    finally show "parseValue prim pf tokens data pos =
        (case (case ms of Inl e \<Rightarrow> Inl e
               | Inr kvs \<Rightarrow> Inr (JObject (foldl (\<lambda>obj (k, v). AList.update k v obj) [] kvs))) of
           Inl e \<Rightarrow> Inl e | Inr v \<Rightarrow> Inr (v, pos + length (l # ts @ [r])))"
      by (simp split: sum.splits)
  qed
next
  case (eLast ts r)
  show ?case
  proof (intro allI impI)
    fix pos cl rest arr
    assume d: "drop pos tokens = ts @ cl # rest" and cl: "Type cl = TokenArrayEnd"
    from eLast.IH d have pv: "parseValue prim pf tokens data pos =
        (case r of Inl e \<Rightarrow> Inl e | Inr v \<Rightarrow> Inr (v, pos + length ts))" by blast
    note n = drop_Cons_nth [OF drop_append_rest [OF d]]
    show "arrayLoop prim pf tokens data pos arr =
        (case (case r of Inl e \<Rightarrow> Inl e | Inr v \<Rightarrow> Inr [v]) of
           Inl e \<Rightarrow> Inl e | Inr vs \<Rightarrow> Inr (JArray (arr @ vs), pos + length ts + 1))"
      using n cl by (subst arrayLoop.simps) (simp add: pv split: sum.splits)
  qed
next
  case (eMore ts r c ts' rs)
  show ?case
  proof (intro allI impI)
    fix pos cl rest arr
    assume d0: "drop pos tokens = (ts @ c # ts') @ cl # rest" and cl: "Type cl = TokenArrayEnd"
    then have d: "drop pos tokens = ts @ c # ts' @ cl # rest" by simp
    from eMore.IH(2) d have pv: "parseValue prim pf tokens data pos =
        (case r of Inl e \<Rightarrow> Inl e | Inr v \<Rightarrow> Inr (v, pos + length ts))" by blast
    note n = drop_Cons_nth [OF drop_append_rest [OF d]]
    show "arrayLoop prim pf tokens data pos arr =
        (case (case r of Inl e \<Rightarrow> Inl e
               | Inr v \<Rightarrow> (case rs of Inl e \<Rightarrow> Inl e | Inr vs \<Rightarrow> Inr (v # vs))) of
           Inl e \<Rightarrow> Inl e
         | Inr vs \<Rightarrow> Inr (JArray (arr @ vs), pos + length (ts @ c # ts') + 1))"
    proof (cases r)
      case (Inl e)
      then show ?thesis by (subst arrayLoop.simps) (simp add: pv)
    next
      case (Inr v)
      from eMore.IH(4) n(3) cl
      have al: "arrayLoop prim pf tokens data (pos + length ts + 1) (arr @ [v]) =
          (case rs of Inl e \<Rightarrow> Inl e
           | Inr vs \<Rightarrow> Inr (JArray ((arr @ [v]) @ vs), pos + length ts + 1 + length ts' + 1))"
        by blast
      have "arrayLoop prim pf tokens data pos arr
              = arrayLoop prim pf tokens data (pos + length ts + 1) (arr @ [v])"
        using n \<open>Type c = TokenComma\<close> Inr by (subst arrayLoop.simps) (simp add: pv)
      with al Inr show ?thesis by (simp split: sum.splits)
    qed
  qed
next
  case (mLast k c ts r)
  show ?case
  proof (intro allI impI)
    fix pos cl rest obj
    assume d0: "drop pos tokens = (k # c # ts) @ cl # rest" and cl: "Type cl = TokenObjectEnd"
    then have d: "drop pos tokens = k # c # ts @ cl # rest" by simp
    note nk = drop_Cons_nth [OF d]
    note nc = drop_Cons_nth [OF nk(3)]
    from nc(3) have dv: "drop (pos + 2) tokens = ts @ cl # rest"
      by (simp add: numeral_2_eq_2)
    from mLast.IH dv have pv: "parseValue prim pf tokens data (pos + 2) =
        (case r of Inl e \<Rightarrow> Inl e | Inr v \<Rightarrow> Inr (v, pos + 2 + length ts))" by blast
    from drop_Cons_nth [OF drop_append_rest [OF dv]]
    have ncl: "pos + 2 + length ts < length tokens" "tokens ! (pos + 2 + length ts) = cl"
      by simp_all
    from nk(1) allok have ok: "tokenInBounds data (tokens ! pos)" by (simp only: nth_mem)
    have ps: "(parseString tokens data pos :: error + ('f jvalue \<times> nat)) =
        (case stringText data k of Inl e \<Rightarrow> Inl e | Inr s \<Rightarrow> Inr (JString s, pos + 1))"
      using parseString_leaf [OF nk(1) ok len] nk(2) by simp
    show "objectLoop prim pf tokens data pos obj =
        (case (case stringText data k of
                 Inl e \<Rightarrow> Inl e
               | Inr key \<Rightarrow> (case r of Inl e \<Rightarrow> Inl e | Inr v \<Rightarrow> Inr [(key, v)])) of
           Inl e \<Rightarrow> Inl e
         | Inr kvs \<Rightarrow> Inr (JObject (foldl (\<lambda>obj (k, v). AList.update k v obj) obj kvs),
                          pos + length (k # c # ts) + 1))"
    proof (cases "stringText data k")
      case (Inl e)
      then show ?thesis
        using nk \<open>Type k = TokenString\<close> by (subst objectLoop.simps) (simp add: ps)
    next
      case key: (Inr key)
      show ?thesis
      proof (cases r)
        case (Inl e)
        then show ?thesis
          using nk nc \<open>Type k = TokenString\<close> \<open>Type c = TokenColon\<close> key ps pv
          by (subst objectLoop.simps) simp
      next
        case (Inr v)
        then show ?thesis
          using nk nc \<open>Type k = TokenString\<close> \<open>Type c = TokenColon\<close> key ncl cl ps pv
          by (subst objectLoop.simps) (simp add: Let_def)
      qed
    qed
  qed
next
  case (mMore k c ts r m ts' ms)
  show ?case
  proof (intro allI impI)
    fix pos cl rest obj
    assume d0: "drop pos tokens = (k # c # ts @ m # ts') @ cl # rest"
      and cl: "Type cl = TokenObjectEnd"
    then have d: "drop pos tokens = k # c # ts @ m # ts' @ cl # rest" by simp
    note nk = drop_Cons_nth [OF d]
    note nc = drop_Cons_nth [OF nk(3)]
    from nc(3) have dv: "drop (pos + 2) tokens = ts @ m # ts' @ cl # rest"
      by (simp add: numeral_2_eq_2)
    from mMore.IH(2) dv have pv: "parseValue prim pf tokens data (pos + 2) =
        (case r of Inl e \<Rightarrow> Inl e | Inr v \<Rightarrow> Inr (v, pos + 2 + length ts))" by blast
    note nm = drop_Cons_nth [OF drop_append_rest [OF dv]]
    from nk(1) allok have ok: "tokenInBounds data (tokens ! pos)" by (simp only: nth_mem)
    have ps: "(parseString tokens data pos :: error + ('f jvalue \<times> nat)) =
        (case stringText data k of Inl e \<Rightarrow> Inl e | Inr s \<Rightarrow> Inr (JString s, pos + 1))"
      using parseString_leaf [OF nk(1) ok len] nk(2) by simp
    show "objectLoop prim pf tokens data pos obj =
        (case (case stringText data k of
                 Inl e \<Rightarrow> Inl e
               | Inr key \<Rightarrow>
                   (case r of
                      Inl e \<Rightarrow> Inl e
                    | Inr v \<Rightarrow> (case ms of Inl e \<Rightarrow> Inl e | Inr kvs \<Rightarrow> Inr ((key, v) # kvs)))) of
           Inl e \<Rightarrow> Inl e
         | Inr kvs \<Rightarrow> Inr (JObject (foldl (\<lambda>obj (k, v). AList.update k v obj) obj kvs),
                          pos + length (k # c # ts @ m # ts') + 1))"
    proof (cases "stringText data k")
      case (Inl e)
      then show ?thesis
        using nk \<open>Type k = TokenString\<close> by (subst objectLoop.simps) (simp add: ps)
    next
      case key: (Inr key)
      show ?thesis
      proof (cases r)
        case (Inl e)
        then show ?thesis
          using nk nc \<open>Type k = TokenString\<close> \<open>Type c = TokenColon\<close> key ps pv
          by (subst objectLoop.simps) simp
      next
        case (Inr v)
        from mMore.IH(4) nm(3) cl
        have ol: "objectLoop prim pf tokens data (pos + 2 + length ts + 1) (AList.update key v obj) =
            (case ms of
               Inl e \<Rightarrow> Inl e
             | Inr kvs \<Rightarrow>
                 Inr (JObject (foldl (\<lambda>obj (k, v). AList.update k v obj) (AList.update key v obj) kvs),
                      pos + 2 + length ts + 1 + length ts' + 1))"
          by blast
        have "objectLoop prim pf tokens data pos obj
                = objectLoop prim pf tokens data (pos + 2 + length ts + 1) (AList.update key v obj)"
          using nk nc \<open>Type k = TokenString\<close> \<open>Type c = TokenColon\<close> \<open>Type m = TokenComma\<close> key Inr nm ps pv
          by (subst objectLoop.simps) (simp add: Let_def)
        with ol key Inr show ?thesis by (simp split: sum.splits)
      qed
    qed
  qed
qed

lemma SimpleTokenize_in_bounds:
  assumes "SimpleTokenize data = Inr toks" and "length data < 2 ^ 32"
  shows "\<forall>t \<in> set toks. tokenInBounds data t"
proof -
  from assms(1) have "tokenizeLoop data 0 [] = Inr toks"
    by (simp add: SimpleTokenize_def split: if_splits)
  from tokenizeLoop_ordered [OF this assms(2)]
  have ord: "ordered_from 0 (length data) toks" by simp
  show ?thesis
    using ordered_from_set [OF ord] by (simp add: tokenInBounds_def)
qed

text \<open>
  Claim C8, as the code has it: for a buffer of fewer than \<open>2 ^ 32\<close> bytes whose token
  sequence from \<open>SimpleTokenize\<close> begins with one complete value of the grammar, \<open>Parse\<close>
  ignores every further token and returns what the value alone denotes: the value, or the
  error of its first string or number token that does not materialise.
\<close>

theorem Parse_first_complete_value:
  fixes pf :: "byte list \<Rightarrow> error + 'f"
  assumes tk: "SimpleTokenize data = Inr (first @ rest)"
    and len: "length data < 2 ^ 32"
    and cv: "completeValue prim pf data first r"
  shows "Parse prim pf data = r"
proof -
  from completeValue_nonempty(1) [OF cv] have ne: "first \<noteq> []" by simp
  have d: "drop 0 (first @ rest) = first @ rest" by simp
  from parse_completeValue(1) [OF SimpleTokenize_in_bounds [OF tk len] len cv] d
  have "parseValue prim pf (first @ rest) data 0 =
          (case r of Inl e \<Rightarrow> Inl e | Inr v \<Rightarrow> Inr (v, 0 + length first))"
    by blast
  with ne show ?thesis
    unfolding Parse_def tk by (simp split: sum.splits)
qed

theorem Parse_first_complete_value_witness:
  "SimpleTokenize
     [ch_lbrace, ch_quote, 0x6B, ch_quote, ch_colon, 0x20, ch_lbracket, 0x37, ch_comma, 0x20,
      ch_quote, 0x61, ch_backslash, ch_quote, 0x62, ch_quote, ch_rbracket, ch_comma, 0x20,
      ch_quote, 0x6E, ch_quote, ch_colon, 0x20, ch_minus, 0x31, 0x32, ch_rbrace, 0x20, 0x39, 0x39]
     = Inr ([\<lparr>Type = TokenObjectBegin, Start = 0, End = 1\<rparr>, \<lparr>Type = TokenString, Start = 1, End = 4\<rparr>,
             \<lparr>Type = TokenColon, Start = 4, End = 5\<rparr>, \<lparr>Type = TokenArrayBegin, Start = 6, End = 7\<rparr>,
             \<lparr>Type = TokenNumber, Start = 7, End = 8\<rparr>, \<lparr>Type = TokenComma, Start = 8, End = 9\<rparr>,
             \<lparr>Type = TokenString, Start = 10, End = 16\<rparr>, \<lparr>Type = TokenArrayEnd, Start = 16, End = 17\<rparr>,
             \<lparr>Type = TokenComma, Start = 17, End = 18\<rparr>, \<lparr>Type = TokenString, Start = 19, End = 22\<rparr>,
             \<lparr>Type = TokenColon, Start = 22, End = 23\<rparr>, \<lparr>Type = TokenNumber, Start = 24, End = 27\<rparr>,
             \<lparr>Type = TokenObjectEnd, Start = 27, End = 28\<rparr>]
            @ [\<lparr>Type = TokenNumber, Start = 29, End = 31\<rparr>]) \<and>
   Parse parseIntegerScalar (\<lambda>s. Inr s)
     [ch_lbrace, ch_quote, 0x6B, ch_quote, ch_colon, 0x20, ch_lbracket, 0x37, ch_comma, 0x20,
      ch_quote, 0x61, ch_backslash, ch_quote, 0x62, ch_quote, ch_rbracket, ch_comma, 0x20,
      ch_quote, 0x6E, ch_quote, ch_colon, 0x20, ch_minus, 0x31, 0x32, ch_rbrace, 0x20, 0x39, 0x39]
     = Inr (JObject [([0x6B], JArray [JInteger 7, JString [0x61, ch_quote, 0x62]]),
                     ([0x6E], JInteger (- 12))])"
proof -
  let ?D = "[ch_lbrace, ch_quote, 0x6B, ch_quote, ch_colon, 0x20, ch_lbracket, 0x37, ch_comma, 0x20,
      ch_quote, 0x61, ch_backslash, ch_quote, 0x62, ch_quote, ch_rbracket, ch_comma, 0x20,
      ch_quote, 0x6E, ch_quote, ch_colon, 0x20, ch_minus, 0x31, 0x32, ch_rbrace, 0x20, 0x39, 0x39] :: byte list"
  let ?ob = "\<lparr>Type = TokenObjectBegin, Start = 0, End = 1\<rparr>"
  let ?k = "\<lparr>Type = TokenString, Start = 1, End = 4\<rparr>"
  let ?c1 = "\<lparr>Type = TokenColon, Start = 4, End = 5\<rparr>"
  let ?ab = "\<lparr>Type = TokenArrayBegin, Start = 6, End = 7\<rparr>"
  let ?n7 = "\<lparr>Type = TokenNumber, Start = 7, End = 8\<rparr>"
  let ?m1 = "\<lparr>Type = TokenComma, Start = 8, End = 9\<rparr>"
  let ?s = "\<lparr>Type = TokenString, Start = 10, End = 16\<rparr>"
  let ?ae = "\<lparr>Type = TokenArrayEnd, Start = 16, End = 17\<rparr>"
  let ?m2 = "\<lparr>Type = TokenComma, Start = 17, End = 18\<rparr>"
  let ?n = "\<lparr>Type = TokenString, Start = 19, End = 22\<rparr>"
  let ?c2 = "\<lparr>Type = TokenColon, Start = 22, End = 23\<rparr>"
  let ?n12 = "\<lparr>Type = TokenNumber, Start = 24, End = 27\<rparr>"
  let ?oe = "\<lparr>Type = TokenObjectEnd, Start = 27, End = 28\<rparr>"
  let ?rest = "[\<lparr>Type = TokenNumber, Start = 29, End = 31\<rparr>]"
  let ?P = "parseIntegerScalar"
  let ?F = "\<lambda>s :: byte list. (Inr s :: error + byte list)"
  have tk: "SimpleTokenize ?D
      = Inr ([?ob, ?k, ?c1, ?ab, ?n7, ?m1, ?s, ?ae, ?m2, ?n, ?c2, ?n12, ?oe] @ ?rest)"
    by (simp add: tok_eval)
  have len: "length ?D < 2 ^ 32" by simp
  have v7: "numberValue ?P ?F (lexeme ?D ?n7) = Inr (JInteger 7)"
    by (simp add: lexeme_def numberValue_def containsFloatCharsBytes_def parseIntegerScalar_def
        digitLoop.simps wrap64_def)
  have v12: "numberValue ?P ?F (lexeme ?D ?n12) = Inr (JInteger (- 12))"
    by (simp add: lexeme_def numberValue_def containsFloatCharsBytes_def parseIntegerScalar_def
        digitLoop.simps wrap64_def)
  have sk: "stringText ?D ?k = Inr [0x6B]"
    by (simp add: stringText_def containsEscape_def)
  have sn: "stringText ?D ?n = Inr [0x6E]"
    by (simp add: stringText_def containsEscape_def)
  have ss: "stringText ?D ?s = Inr [0x61, ch_quote, 0x62]"
    by (simp add: stringText_def containsEscape_def unescapeString_def unescapeLoop.simps)
  have c7: "completeValue ?P ?F ?D [?n7] (Inr (JInteger 7))"
    using vNumber [of ?n7 ?P ?F ?D] by (simp only: v7) simp
  have c12: "completeValue ?P ?F ?D [?n12] (Inr (JInteger (- 12)))"
    using vNumber [of ?n12 ?P ?F ?D] by (simp only: v12) simp
  have cs: "completeValue ?P ?F ?D [?s] (Inr (JString [0x61, ch_quote, 0x62]))"
    using vString [of ?s ?P ?F ?D] by (simp only: ss) simp
  have el: "arrayElements ?P ?F ?D [?n7, ?m1, ?s] (Inr [JInteger 7, JString [0x61, ch_quote, 0x62]])"
    using eMore [OF c7 _ eLast [OF cs], of ?m1] by simp
  have ar: "completeValue ?P ?F ?D [?ab, ?n7, ?m1, ?s, ?ae]
              (Inr (JArray [JInteger 7, JString [0x61, ch_quote, 0x62]]))"
    using vArray [OF _ el, of ?ab ?ae] by simp
  have ml: "objectMembers ?P ?F ?D [?n, ?c2, ?n12] (Inr [([0x6E], JInteger (- 12))])"
    using mLast [OF _ _ c12, of ?n ?c2] sn by simp
  have mm: "objectMembers ?P ?F ?D [?k, ?c1, ?ab, ?n7, ?m1, ?s, ?ae, ?m2, ?n, ?c2, ?n12]
              (Inr [([0x6B], JArray [JInteger 7, JString [0x61, ch_quote, 0x62]]),
                    ([0x6E], JInteger (- 12))])"
    using mMore [OF _ _ ar _ ml, of ?k ?c1 ?m2] sk by simp
  have cv: "completeValue ?P ?F ?D [?ob, ?k, ?c1, ?ab, ?n7, ?m1, ?s, ?ae, ?m2, ?n, ?c2, ?n12, ?oe]
              (Inr (JObject [([0x6B], JArray [JInteger 7, JString [0x61, ch_quote, 0x62]]),
                             ([0x6E], JInteger (- 12))]))"
    using vObject [OF _ mm, of ?ob ?oe] by simp
  from Parse_first_complete_value [OF tk len cv] tk show ?thesis by (simp only: simp_thms)
qed

text \<open>
  Claim C8 as stated, with "parse succeeds", fails at the bytes \<^verbatim>\<open>"\x" 2\<close>: the token
  sequence begins with a string token, which is a complete value of the grammar, and
  \<open>Parse\<close> returns the error "invalid escape character" of its materialisation.  It also
  fails at a buffer of \<open>2 ^ 32\<close> bytes, where the offsets of the number token have wrapped
  and \<open>Parse\<close> panics.
\<close>

theorem Parse_first_complete_value_counterexample:
  "SimpleTokenize [ch_quote, ch_backslash, 0x78, ch_quote, 0x20, 0x32]
     = Inr [\<lparr>Type = TokenString, Start = 0, End = 4\<rparr>, \<lparr>Type = TokenNumber, Start = 5, End = 6\<rparr>] \<and>
   Type \<lparr>Type = TokenString, Start = 0, End = 4\<rparr> = TokenString \<and>
   Parse parseIntegerScalar (\<lambda>s. Inr s) [ch_quote, ch_backslash, 0x78, ch_quote, 0x20, 0x32]
     = Inl InvalidEscapeCharacter \<and>
   SimpleTokenize (replicate 4294967295 0x20 @ [0x31])
     = Inr [\<lparr>Type = TokenNumber, Start = 4294967295, End = 0\<rparr>] \<and>
   Parse parseIntegerScalar (\<lambda>s. Inr s) (replicate 4294967295 0x20 @ [0x31]) = Inl Panic"
proof -
  have tk: "SimpleTokenize [ch_quote, ch_backslash, 0x78, ch_quote, 0x20, 0x32]
     = Inr [\<lparr>Type = TokenString, Start = 0, End = 4\<rparr>, \<lparr>Type = TokenNumber, Start = 5, End = 6\<rparr>]"
    by (simp add: tok_eval)
  have pa: "Parse parseIntegerScalar (\<lambda>s. Inr s) [ch_quote, ch_backslash, 0x78, ch_quote, 0x20, 0x32]
     = Inl InvalidEscapeCharacter"
    unfolding Parse_def tk
    by (simp add: parseValue.simps parseString_def slice_def sub32_def uint32_def
        containsEscape_def unescapeString_def unescapeLoop.simps)
  define big :: "byte list" where "big = replicate 4294967295 0x20 @ [0x31]"
  have tb: "SimpleTokenize big = Inr [\<lparr>Type = TokenNumber, Start = 4294967295, End = 0\<rparr>]"
    unfolding big_def using tokenize_padded_digit [of 4294967295] by (simp add: uint32_def)
  have pb: "Parse parseIntegerScalar (\<lambda>s. Inr s) big = Inl Panic"
    unfolding Parse_def tb by (simp add: parseValue.simps parseNumber_def slice_def)
  from tk pa tb pb show ?thesis by (simp add: big_def)
qed

section \<open>Integer and float numbers\<close>

















section \<open>Absence of panics\<close>














end
